theory Spec2Isabelle
  imports Complex_Main "HOL-Library.Word"
begin

unbundle bit_operations_syntax

section \<open>Data model\<close>

text \<open>
  The library is TypeScript. Its values are modelled as follows.
  \<^item> A \<open>Uint8Array\<close> is a list of 8-bit words.
  \<^item> A string is an Isabelle string; the model covers ASCII text, which is what the
    alphabets, parameter names and regular expressions of the library are made of.
  \<^item> A \<open>number\<close> that the code uses as an integer (counter, window, timestamp,
    period) is an \<open>int\<close>; a number that counts characters or digits is a \<open>nat\<close>.
    JavaScript's doubles are exact on integers up to \<open>2^53\<close> in magnitude; where
    the arithmetic of the source can leave that range or the integers (the loop of
    \<open>validate\<close>, the increment of the counter, the divisions of \<open>TOTP.counter\<close>),
    the model rounds as the machine does. The 32-bit operators of JavaScript
    (\<open>&\<close>, \<open>|\<close>, \<open><<\<close>, \<open>>>>\<close>) are operations on \<open>32 word\<close>.
  \<^item> A \<open>throw\<close> is the left injection of a sum; the error names are those of the
    interface description, one constructor for each \<open>throw\<close> of the source.
  \<^item> An optional property of an options object is an \<open>option\<close>; a default
    parameter \<open>x = d\<close> is \<open>default_to d x\<close>.
\<close>

type_synonym byte = "8 word"

datatype error =
    InvalidURIFormat                    \<comment> \<open>\<open>URIError\<close> of \<open>URI.parse\<close>\<close>
  | MalformedEscape                     \<comment> \<open>\<open>URIError\<close> of \<open>decodeURIComponent\<close>\<close>
  | UnknownOTPType                      \<comment> \<open>\<open>TypeError\<close>: unknown OTP type\<close>
  | MissingOrInvalidParameter string    \<comment> \<open>\<open>TypeError\<close> of \<open>URI.parse\<close> for a parameter\<close>
  | InvalidCharacter char               \<comment> \<open>\<open>TypeError\<close> of \<open>base32Decode\<close>\<close>
  | UnsupportedAlgorithm string         \<comment> \<open>\<open>TypeError\<close> of \<open>canonicalizeAlgorithm\<close>\<close>
  | UnsupportedHash string              \<comment> \<open>\<open>Error\<close> of \<open>getHashFunction\<close>\<close>
  | HashBackendUnavailable string       \<comment> \<open>\<open>Error\<close> of \<open>sha1\<close>, \<open>sha256\<close>, \<open>sha512\<close>\<close>
  | CryptoUnavailable                   \<comment> \<open>\<open>Error\<close> of \<open>randomBytes\<close>\<close>
  | UnequalLengths                      \<comment> \<open>\<open>TypeError\<close> of \<open>timingSafeEqual\<close>\<close>

definition default_to :: "'a \<Rightarrow> 'a option \<Rightarrow> 'a" where
  "default_to d x = (case x of None \<Rightarrow> d | Some v \<Rightarrow> v)"

subsection \<open>The host platform\<close>

text \<open>
  The hash primitives, the random source and the clock (\<open>Date.now()\<close>) belong to the
  host (Web Crypto or Node's \<open>crypto\<close> module) and are parameters of the model. A backend is absent (\<open>None\<close>) or
  maps an algorithm name and a message to a digest; it answers \<open>None\<close> where the real
  call throws.
\<close>

record platform =
  webCrypto :: "(string \<Rightarrow> byte list \<Rightarrow> byte list option) option"
  nodeCrypto :: "(string \<Rightarrow> byte list \<Rightarrow> byte list option) option"
  getRandomValues :: "(nat \<Rightarrow> byte list) option"
  date_now :: int

definition backend_digest ::
  "(string \<Rightarrow> byte list \<Rightarrow> byte list option) option \<Rightarrow> string \<Rightarrow> byte list \<Rightarrow> byte list option" where
  "backend_digest backend name message =
     (case backend of None \<Rightarrow> None | Some digest \<Rightarrow> digest name message)"

subsection \<open>Strings\<close>

text \<open>
  Case mapping is modelled on the ASCII letters, of which the library's own texts
  (algorithm names, base32 symbols, parameter keys) consist; a statement about other
  text says that it is ASCII.
\<close>

definition upper_table :: "(char \<times> char) list" where
  "upper_table = zip ''abcdefghijklmnopqrstuvwxyz'' ''ABCDEFGHIJKLMNOPQRSTUVWXYZ''"

definition lower_table :: "(char \<times> char) list" where
  "lower_table = zip ''ABCDEFGHIJKLMNOPQRSTUVWXYZ'' ''abcdefghijklmnopqrstuvwxyz''"

definition toUpperCase :: "string \<Rightarrow> string" where
  "toUpperCase s = map (\<lambda>c. case map_of upper_table c of None \<Rightarrow> c | Some u \<Rightarrow> u) s"

definition toLowerCase :: "string \<Rightarrow> string" where
  "toLowerCase s = map (\<lambda>c. case map_of lower_table c of None \<Rightarrow> c | Some l \<Rightarrow> l) s"

text \<open>\<open>String.prototype.indexOf\<close> for a one-character needle; \<open>None\<close> is \<open>-1\<close>.\<close>

fun indexOf :: "string \<Rightarrow> char \<Rightarrow> nat option" where
  "indexOf [] c = None"
| "indexOf (x # xs) c = (if x = c then Some 0 else map_option Suc (indexOf xs c))"

definition startsWith :: "string \<Rightarrow> string \<Rightarrow> bool" where
  "startsWith s p = (take (length p) s = p)"

text \<open>\<open>s.replace(/-/, "")\<close>: the pattern has no \<open>g\<close> flag, so the first hyphen goes.\<close>

fun replace_first_hyphen :: "string \<Rightarrow> string" where
  "replace_first_hyphen [] = []"
| "replace_first_hyphen (c # cs) = (if c = CHR ''-'' then cs else c # replace_first_hyphen cs)"

section \<open>Base32 codec and Secret\<close>

definition ALPHABET :: string where
  "ALPHABET = ''ABCDEFGHIJKLMNOPQRSTUVWXYZ234567''"

text \<open>
  \<open>base32Encode\<close>. The accumulator \<open>value\<close> is never masked in the source:
  \<open>value << 8\<close> wraps at 32 bits, and the symbols are read from its low bits.
\<close>

function encode_while :: "nat \<Rightarrow> 32 word \<Rightarrow> string \<Rightarrow> nat \<times> string" where
  "encode_while bits v str =
     (if bits \<ge> 5
      then encode_while (bits - 5) v (str @ [ALPHABET ! unat (drop_bit (bits - 5) v AND 31)])
      else (bits, str))"
  by pat_completeness auto
termination
  by (relation "measure (\<lambda>(bits, v, str). bits)") auto

declare encode_while.simps [simp del]

fun encode_for :: "byte list \<Rightarrow> nat \<Rightarrow> 32 word \<Rightarrow> string \<Rightarrow> nat \<times> 32 word \<times> string" where
  "encode_for [] bits v str = (bits, v, str)"
| "encode_for (a # arr) bits v str =
     (case encode_while (bits + 8) (push_bit 8 v OR ucast a) str of
        (bits', str') \<Rightarrow> encode_for arr bits' (push_bit 8 v OR ucast a) str')"

definition base32Encode :: "byte list \<Rightarrow> string" where
  "base32Encode arr =
     (case encode_for arr 0 0 [] of
        (bits, v, str) \<Rightarrow>
          if bits > 0 then str @ [ALPHABET ! unat (push_bit (5 - bits) v AND 31)] else str)"

text \<open>
  \<open>base32Decode\<close>. \<open>strip_end\<close> is the loop \<open>while (str[end - 1] === "=") --end\<close>;
  at \<open>end = 0\<close> the read is \<open>undefined\<close> and the loop stops. A write to a typed array
  beyond its length is ignored, as \<open>list_update\<close> does.
\<close>

fun strip_end :: "string \<Rightarrow> nat \<Rightarrow> nat" where
  "strip_end str 0 = 0"
| "strip_end str (Suc e) = (if str ! e = CHR ''='' then strip_end str e else Suc e)"

fun decode_for :: "string \<Rightarrow> nat \<Rightarrow> 32 word \<Rightarrow> nat \<Rightarrow> byte list \<Rightarrow> error + byte list" where
  "decode_for [] bits v index arr = Inr arr"
| "decode_for (c # cs) bits v index arr =
     (case indexOf ALPHABET c of
        None \<Rightarrow> Inl (InvalidCharacter c)
      | Some idx \<Rightarrow>
          if bits + 5 \<ge> 8
          then decode_for cs (bits + 5 - 8) (push_bit 5 v OR of_nat idx) (Suc index)
                 (arr[index := ucast (drop_bit (bits + 5 - 8) (push_bit 5 v OR of_nat idx))])
          else decode_for cs (bits + 5) (push_bit 5 v OR of_nat idx) index arr)"

definition strip_input :: "string \<Rightarrow> string" where
  "strip_input str =
     (let s = toUpperCase (filter (\<lambda>c. c \<noteq> CHR '' '') str)
      in take (strip_end s (length s)) s)"

definition base32Decode :: "string \<Rightarrow> error + byte list" where
  "base32Decode str =
     (let s = strip_input str
      in decode_for s 0 0 0 (replicate (length s * 5 div 8) 0))"

text \<open>
  A \<open>Secret\<close> owns its bytes; \<open>base32\<close> is a getter computed from them. Without a
  buffer the constructor draws \<open>size\<close> (here \<open>sz\<close>) random bytes from the platform.
\<close>

datatype Secret = Secret (secret_bytes: "byte list")

definition randomBytes :: "platform \<Rightarrow> nat \<Rightarrow> error + byte list" where
  "randomBytes env sz =
     (case getRandomValues env of None \<Rightarrow> Inl CryptoUnavailable | Some rnd \<Rightarrow> Inr (rnd sz))"

definition Secret_new :: "platform \<Rightarrow> byte list option \<Rightarrow> nat option \<Rightarrow> error + Secret" where
  "Secret_new env buffer sz =
     (case buffer of
        None \<Rightarrow> map_sum id Secret (randomBytes env (default_to 20 sz))
      | Some b \<Rightarrow> Inr (Secret b))"

definition base32 :: "Secret \<Rightarrow> string" where
  "base32 s = base32Encode (secret_bytes s)"

section \<open>Algorithm names\<close>

definition canonicalizeAlgorithm :: "string \<Rightarrow> error + string" where
  "canonicalizeAlgorithm algorithm =
     (let upperAlgorithm = toUpperCase algorithm in
      if startsWith upperAlgorithm ''SHA3-''
      then (if upperAlgorithm \<in> set [''SHA3-224'', ''SHA3-256'', ''SHA3-384'', ''SHA3-512'']
            then Inr upperAlgorithm
            else Inl (UnsupportedAlgorithm algorithm))
      else (let simpleAlgorithm = replace_first_hyphen upperAlgorithm in
            if simpleAlgorithm = ''SHA1'' then Inr ''SHA1''
            else if simpleAlgorithm = ''SHA224'' then Inr ''SHA224''
            else if simpleAlgorithm = ''SHA256'' then Inr ''SHA256''
            else if simpleAlgorithm = ''SHA384'' then Inr ''SHA384''
            else if simpleAlgorithm = ''SHA512'' then Inr ''SHA512''
            else Inl (UnsupportedAlgorithm algorithm)))"

definition HashAlgorithm :: "string set" where
  "HashAlgorithm = {''SHA1'', ''SHA224'', ''SHA256'', ''SHA384'', ''SHA512'',
                    ''SHA3-224'', ''SHA3-256'', ''SHA3-384'', ''SHA3-512''}"

section \<open>Configuration objects\<close>

text \<open>
  \<open>HOTPOptions\<close> and \<open>TOTPOptions\<close> differ in one property; \<open>URI.parse\<close> fills an
  untyped object and hands it to either constructor, so one record holds both.
\<close>

datatype secret_arg = SecretObject Secret | SecretString string

record options =
  opt_issuer :: "string option"
  opt_label :: "string option"
  opt_issuerInLabel :: "bool option"
  opt_secret :: "secret_arg option"
  opt_algorithm :: "string option"
  opt_digits :: "nat option"
  opt_counter :: "int option"
  opt_period :: "int option"

definition no_options :: options where
  "no_options = \<lparr>opt_issuer = None, opt_label = None, opt_issuerInLabel = None,
     opt_secret = None, opt_algorithm = None, opt_digits = None, opt_counter = None,
     opt_period = None\<rparr>"

record HOTP =
  h_issuer :: string
  h_label :: string
  h_issuerInLabel :: bool
  h_secret :: Secret
  h_algorithm :: string
  h_digits :: nat
  h_counter :: int

record TOTP =
  t_issuer :: string
  t_label :: string
  t_issuerInLabel :: bool
  t_secret :: Secret
  t_algorithm :: string
  t_digits :: nat
  t_period :: int

text \<open>The \<open>secret\<close> argument of both constructors: a fresh random secret by default,
  a base32 string decoded, a \<open>Secret\<close> taken as it is.\<close>

definition resolve_secret :: "platform \<Rightarrow> secret_arg option \<Rightarrow> error + Secret" where
  "resolve_secret env s =
     (case s of
        None \<Rightarrow> Secret_new env None None
      | Some (SecretString str) \<Rightarrow>
          (case base32Decode str of Inl e \<Rightarrow> Inl e | Inr b \<Rightarrow> Secret_new env (Some b) None)
      | Some (SecretObject obj) \<Rightarrow> Inr obj)"

definition HOTP_new :: "platform \<Rightarrow> options \<Rightarrow> error + HOTP" where
  "HOTP_new env opts =
     (case resolve_secret env (opt_secret opts) of
        Inl e \<Rightarrow> Inl e
      | Inr s \<Rightarrow>
          Inr \<lparr>h_issuer = default_to [] (opt_issuer opts),
               h_label = default_to ''OTPAuth'' (opt_label opts),
               h_issuerInLabel = default_to True (opt_issuerInLabel opts),
               h_secret = s,
               h_algorithm = toUpperCase (default_to ''SHA1'' (opt_algorithm opts)),
               h_digits = default_to 6 (opt_digits opts),
               h_counter = default_to 0 (opt_counter opts)\<rparr>)"

definition TOTP_new :: "platform \<Rightarrow> options \<Rightarrow> error + TOTP" where
  "TOTP_new env opts =
     (case resolve_secret env (opt_secret opts) of
        Inl e \<Rightarrow> Inl e
      | Inr s \<Rightarrow>
          (case canonicalizeAlgorithm (default_to ''SHA1'' (opt_algorithm opts)) of
             Inl e \<Rightarrow> Inl e
           | Inr a \<Rightarrow>
               Inr \<lparr>t_issuer = default_to [] (opt_issuer opts),
                    t_label = default_to ''OTPAuth'' (opt_label opts),
                    t_issuerInLabel = default_to True (opt_issuerInLabel opts),
                    t_secret = s,
                    t_algorithm = a,
                    t_digits = default_to 6 (opt_digits opts),
                    t_period = default_to 30 (opt_period opts)\<rparr>))"

section \<open>HMAC\<close>

text \<open>
  Each of \<open>sha1\<close>, \<open>sha256\<close> and \<open>sha512\<close> asks Web Crypto first, Node's \<open>crypto\<close>
  next, and throws when neither delivers.
\<close>

definition sha1 :: "platform \<Rightarrow> byte list \<Rightarrow> error + byte list" where
  "sha1 env message =
     (case backend_digest (webCrypto env) ''SHA-1'' message of
        Some d \<Rightarrow> Inr d
      | None \<Rightarrow>
          (case backend_digest (nodeCrypto env) ''sha1'' message of
             Some d \<Rightarrow> Inr d
           | None \<Rightarrow> Inl (HashBackendUnavailable ''SHA-1'')))"

definition sha256 :: "platform \<Rightarrow> byte list \<Rightarrow> error + byte list" where
  "sha256 env message =
     (case backend_digest (webCrypto env) ''SHA-256'' message of
        Some d \<Rightarrow> Inr d
      | None \<Rightarrow>
          (case backend_digest (nodeCrypto env) ''sha256'' message of
             Some d \<Rightarrow> Inr d
           | None \<Rightarrow> Inl (HashBackendUnavailable ''SHA-256'')))"

definition sha512 :: "platform \<Rightarrow> byte list \<Rightarrow> error + byte list" where
  "sha512 env message =
     (case backend_digest (webCrypto env) ''SHA-512'' message of
        Some d \<Rightarrow> Inr d
      | None \<Rightarrow>
          (case backend_digest (nodeCrypto env) ''sha512'' message of
             Some d \<Rightarrow> Inr d
           | None \<Rightarrow> Inl (HashBackendUnavailable ''SHA-512'')))"

definition getHashFunction :: "string \<Rightarrow> error + (platform \<Rightarrow> byte list \<Rightarrow> error + byte list)" where
  "getHashFunction algorithm =
     (if toLowerCase algorithm = ''sha1'' then Inr sha1
      else if toLowerCase algorithm = ''sha256'' then Inr sha256
      else if toLowerCase algorithm = ''sha512'' then Inr sha512
      else Inl (UnsupportedHash algorithm))"

text \<open>
  \<open>hmacDigest\<close>. The typed-array copies (\<open>newKey.set(key)\<close>, the two \<open>set\<close> calls that
  build each message) are list concatenations. The padding loop reads \<open>key[i]\<close> for
  \<open>i < blockSize\<close>; the key has at least \<open>blockSize\<close> bytes by then, so every read is
  in range.
\<close>

definition blockSize :: "string \<Rightarrow> nat" where
  "blockSize algorithm = (if toLowerCase algorithm = ''sha512'' then 128 else 64)"

definition hmacDigest :: "platform \<Rightarrow> string \<Rightarrow> byte list \<Rightarrow> byte list \<Rightarrow> error + byte list" where
  "hmacDigest env algorithm key message =
     (case getHashFunction algorithm of
        Inl e \<Rightarrow> Inl e
      | Inr hashFunc \<Rightarrow>
          (case (if length key > blockSize algorithm then hashFunc env key else Inr key) of
             Inl e \<Rightarrow> Inl e
           | Inr key1 \<Rightarrow>
               (let key2 = (if length key1 < blockSize algorithm
                            then key1 @ replicate (blockSize algorithm - length key1) 0
                            else key1);
                    innerPadding = map (\<lambda>i. key2 ! i XOR 0x36) [0..<blockSize algorithm];
                    outerPadding = map (\<lambda>i. key2 ! i XOR 0x5c) [0..<blockSize algorithm]
                in case hashFunc env (innerPadding @ message) of
                     Inl e \<Rightarrow> Inl e
                   | Inr innerHash \<Rightarrow> hashFunc env (outerPadding @ innerHash))))"

text \<open>
  The hash primitive of an algorithm name, as the interface description calls it:
  \<open>getHashFunction\<close> applied to the name, then to a message.
\<close>

definition hash :: "platform \<Rightarrow> string \<Rightarrow> byte list \<Rightarrow> error + byte list" where
  "hash env algorithm message =
     (case getHashFunction algorithm of Inl e \<Rightarrow> Inl e | Inr hashFunc \<Rightarrow> hashFunc env message)"

section \<open>JavaScript numbers\<close>

text \<open>
  A JavaScript number is an IEEE 754 double. The model holds the integer-valued ones as
  \<open>int\<close>, and every sum, difference and quotient the source computes on them is rounded
  as the machine rounds it: to the nearest double, a tie going to the even significand.
  \<open>binade x\<close> is \<open>\<lfloor>log 2 \<bar>x\<bar>\<rfloor>\<close>, found from the bit length of an integer;
  \<open>to_double\<close> keeps 53 significant bits. The exponent range is not modelled: the
  magnitudes are those between \<open>2 powi (- 1022)\<close> and \<open>2 ^ 1024\<close>, where every
  double is normal.
\<close>

function bit_length :: "int \<Rightarrow> nat" where
  "bit_length n = (if n \<le> 0 then 0 else Suc (bit_length (n div 2)))"
  by pat_completeness auto
termination
  by (relation "measure nat") auto

declare bit_length.simps [simp del]

definition binade :: "real \<Rightarrow> int" where
  "binade x =
     (if 1 \<le> \<bar>x\<bar> then int (bit_length \<lfloor>\<bar>x\<bar>\<rfloor>) - 1
      else - int (bit_length (\<lceil>1 / \<bar>x\<bar>\<rceil> - 1)))"

definition round_even :: "real \<Rightarrow> int" where
  "round_even z =
     (if z - of_int \<lfloor>z\<rfloor> < 1 / 2 then \<lfloor>z\<rfloor>
      else if 1 / 2 < z - of_int \<lfloor>z\<rfloor> then \<lfloor>z\<rfloor> + 1
      else if even \<lfloor>z\<rfloor> then \<lfloor>z\<rfloor> else \<lfloor>z\<rfloor> + 1)"

definition to_double :: "real \<Rightarrow> real" where
  "to_double x =
     (if x = 0 then 0
      else of_int (round_even (x / 2 powi (binade x - 52))) * 2 powi (binade x - 52))"

text \<open>
  The double that integer arithmetic yields: \<open>number (a + b)\<close> is \<open>a + b\<close> as JavaScript
  computes it on two integer-valued doubles. Up to \<open>2 ^ 53\<close> in magnitude it is the exact
  result; beyond, it is a multiple of a power of two.
\<close>

definition number :: "int \<Rightarrow> int" where
  "number x = \<lfloor>to_double (of_int x)\<rfloor>"

section \<open>HOTP\<close>

text \<open>
  \<open>uintDecode\<close>: the loop runs \<open>i\<close> from 7 down to 0 and stops early when the
  accumulator is zero. \<open>acc & 255\<close> converts the accumulator to 32 bits first; the
  division by 256 is exact, since the low byte has been subtracted.
\<close>

fun uintDecode_for :: "nat \<Rightarrow> int \<Rightarrow> byte list \<Rightarrow> byte list" where
  "uintDecode_for 0 acc arr = arr"
| "uintDecode_for (Suc i) acc arr =
     (if acc = 0 then arr
      else uintDecode_for i
             ((acc - uint (ucast ((word_of_int acc :: 32 word) AND 255) :: byte)) div 256)
             (arr[i := ucast ((word_of_int acc :: 32 word) AND 255)]))"

definition uintDecode :: "int \<Rightarrow> byte list" where
  "uintDecode num = uintDecode_for 8 num (replicate 8 0)"

fun timingSafeEqual_for :: "string \<Rightarrow> string \<Rightarrow> 32 word \<Rightarrow> 32 word" where
  "timingSafeEqual_for (x # xs) (y # ys) out =
     timingSafeEqual_for xs ys (out OR (of_nat (of_char x) XOR of_nat (of_char y)))"
| "timingSafeEqual_for xs ys out = out"

definition timingSafeEqual :: "string \<Rightarrow> string \<Rightarrow> error + bool" where
  "timingSafeEqual a b =
     (if length a \<noteq> length b then Inl UnequalLengths
      else Inr (timingSafeEqual_for a b 0 = 0))"

text \<open>
  Decimal rendering of a number (\<open>Number.prototype.toString\<close> on an integer),
  \<open>padStart\<close>, and the remainder operator \<open>%\<close>, whose sign is the dividend's.
\<close>

definition digit_char :: "nat \<Rightarrow> char" where
  "digit_char d = ''0123456789'' ! d"

function decimal :: "nat \<Rightarrow> string" where
  "decimal n = (if n < 10 then [digit_char n] else decimal (n div 10) @ [digit_char (n mod 10)])"
  by pat_completeness auto
termination
  by (relation "measure id") auto

declare decimal.simps [simp del]

definition toString :: "int \<Rightarrow> string" where
  "toString n = (if n < 0 then CHR ''-'' # decimal (nat (- n)) else decimal (nat n))"

definition padStart :: "nat \<Rightarrow> char \<Rightarrow> string \<Rightarrow> string" where
  "padStart n c s = replicate (n - length s) c @ s"

definition js_rem :: "int \<Rightarrow> int \<Rightarrow> int" where
  "js_rem a b = sgn a * (\<bar>a\<bar> mod \<bar>b\<bar>)"

text \<open>
  \<open>digest[i] & m\<close>: a read outside the array is \<open>undefined\<close>, which \<open>&\<close> turns
  into 0.
\<close>

definition digest_at :: "byte list \<Rightarrow> int \<Rightarrow> 32 word \<Rightarrow> 32 word" where
  "digest_at d i m = (if 0 \<le> i \<and> i < int (length d) then ucast (d ! nat i) AND m else 0)"

definition truncate_digest :: "byte list \<Rightarrow> int" where
  "truncate_digest d =
     (let offset = uint (digest_at d (int (length d) - 1) 15)
      in sint (push_bit 24 (digest_at d offset 127) OR
               push_bit 16 (digest_at d (offset + 1) 255) OR
               push_bit 8 (digest_at d (offset + 2) 255) OR
               digest_at d (offset + 3) 255))"

definition HOTP_generate ::
  "platform \<Rightarrow> Secret \<Rightarrow> string option \<Rightarrow> nat option \<Rightarrow> int option \<Rightarrow> error + string" where
  "HOTP_generate env secret algorithm digits counter =
     (case hmacDigest env (default_to ''SHA1'' algorithm) (secret_bytes secret)
             (uintDecode (default_to 0 counter)) of
        Inl e \<Rightarrow> Inl e
      | Inr digest \<Rightarrow>
          Inr (padStart (default_to 6 digits) CHR ''0''
                 (toString (js_rem (truncate_digest digest) (10 ^ default_to 6 digits)))))"

text \<open>
  \<open>HOTP.validate\<close>: the loop variable \<open>i\<close> runs from \<open>counter - window\<close> while
  \<open>i <= counter + window\<close>; an exception of \<open>generate\<close> or of \<open>timingSafeEqual\<close>
  leaves the loop. \<open>++i\<close> is an addition of doubles: from \<open>2 ^ 53\<close> on it no longer
  advances, and the loop need not end. The result \<open>None\<close> says that the call does not
  return; \<open>Some (Inl e)\<close> that it throws, \<open>Some (Inr None)\<close> that it returns \<open>null\<close>.
\<close>

partial_function (option) validate_for ::
  "platform \<Rightarrow> string \<Rightarrow> Secret \<Rightarrow> string option \<Rightarrow> nat \<Rightarrow> int \<Rightarrow> int \<Rightarrow> int \<Rightarrow> int option
     \<Rightarrow> (error + int option) option" where
  "validate_for env token secret algorithm digits counter window i delta =
     (if i \<le> number (counter + window)
      then (case HOTP_generate env secret algorithm (Some digits) (Some i) of
              Inl e \<Rightarrow> Some (Inl e)
            | Inr generatedToken \<Rightarrow>
                (case timingSafeEqual token generatedToken of
                   Inl e \<Rightarrow> Some (Inl e)
                 | Inr eq \<Rightarrow>
                     validate_for env token secret algorithm digits counter window
                       (number (i + 1))
                       (if eq then Some (number (i - counter)) else delta)))
      else Some (Inr delta))"

definition HOTP_validate ::
  "platform \<Rightarrow> string \<Rightarrow> Secret \<Rightarrow> string option \<Rightarrow> nat option \<Rightarrow> int option \<Rightarrow> int option
     \<Rightarrow> (error + int option) option" where
  "HOTP_validate env token secret algorithm digits counter window =
     (if length token \<noteq> default_to 6 digits then Some (Inr None)
      else validate_for env token secret algorithm (default_to 6 digits) (default_to 0 counter)
             (default_to 1 window) (number (default_to 0 counter - default_to 1 window)) None)"

text \<open>
  The instance methods. An asynchronous method evaluates its defaults when it is called:
  \<open>counter = this.counter++\<close> reads and increments the field only when the caller passes
  no counter; the increment is an addition of doubles. Both methods return the object
  after the call beside the result.
\<close>

definition HOTP_generate_instance :: "platform \<Rightarrow> HOTP \<Rightarrow> int option \<Rightarrow> (error + string) \<times> HOTP" where
  "HOTP_generate_instance env this counter =
     (case counter of
        None \<Rightarrow>
          (HOTP_generate env (h_secret this) (Some (h_algorithm this)) (Some (h_digits this))
             (Some (h_counter this)),
           this\<lparr>h_counter := number (h_counter this + 1)\<rparr>)
      | Some c \<Rightarrow>
          (HOTP_generate env (h_secret this) (Some (h_algorithm this)) (Some (h_digits this))
             (Some c),
           this))"

definition HOTP_validate_instance ::
  "platform \<Rightarrow> HOTP \<Rightarrow> string \<Rightarrow> int option \<Rightarrow> int option
     \<Rightarrow> (error + int option) option \<times> HOTP" where
  "HOTP_validate_instance env this token counter window =
     (HOTP_validate env token (h_secret this) (Some (h_algorithm this)) (Some (h_digits this))
        (Some (default_to (h_counter this) counter)) window,
      this)"

section \<open>TOTP\<close>

text \<open>
  \<open>Math.floor(timestamp / 1000 / period)\<close>: two divisions of doubles, each rounded, then
  the floor. A period of zero is outside the model (JavaScript yields \<open>Infinity\<close> or
  \<open>NaN\<close> there).
\<close>

definition TOTP_counter :: "platform \<Rightarrow> int option \<Rightarrow> int option \<Rightarrow> int" where
  "TOTP_counter env period timestamp =
     \<lfloor>to_double (to_double (of_int (default_to (date_now env) timestamp) / 1000) /
        of_int (default_to 30 period))\<rfloor>"

definition TOTP_generate ::
  "platform \<Rightarrow> Secret \<Rightarrow> string option \<Rightarrow> nat option \<Rightarrow> int option \<Rightarrow> int option \<Rightarrow> error + string" where
  "TOTP_generate env secret algorithm digits period timestamp =
     HOTP_generate env secret algorithm digits
       (Some (TOTP_counter env (Some (default_to 30 period))
                (Some (default_to (date_now env) timestamp))))"

definition TOTP_validate ::
  "platform \<Rightarrow> string \<Rightarrow> Secret \<Rightarrow> string option \<Rightarrow> nat option \<Rightarrow> int option \<Rightarrow> int option
     \<Rightarrow> int option \<Rightarrow> (error + int option) option" where
  "TOTP_validate env token secret algorithm digits period timestamp window =
     HOTP_validate env token secret algorithm digits
       (Some (TOTP_counter env (Some (default_to 30 period))
                (Some (default_to (date_now env) timestamp))))
       window"

section \<open>A concrete platform: SHA-1\<close>

text \<open>
  The hash primitive is not part of the library. To run the model on the test vectors of
  RFC 2202, RFC 4226 and RFC 6238, SHA-1 is written out here after FIPS 180-4, on
  32-bit words held as integers below \<open>2^32\<close>.
\<close>

definition add32 :: "int \<Rightarrow> int \<Rightarrow> int" where
  "add32 x y = (if x + y \<ge> 4294967296 then x + y - 4294967296 else x + y)"

text \<open>Rotation to the left: the bits shifted out at the top come back at the bottom.\<close>

definition rot_join :: "nat \<Rightarrow> int \<Rightarrow> int \<Rightarrow> int" where
  "rot_join n w hi = push_bit n (w - push_bit (32 - n) hi) + hi"

definition rotl32 :: "nat \<Rightarrow> int \<Rightarrow> int" where
  "rotl32 n w = rot_join n w (drop_bit (32 - n) w)"

fun len :: "byte list \<Rightarrow> nat" where
  "len [] = 0"
| "len (x # xs) = len xs + 1"

definition be64 :: "nat \<Rightarrow> byte list" where
  "be64 n = map (\<lambda>k. of_nat (n div 256 ^ k mod 256)) [7, 6, 5, 4, 3, 2, 1, 0]"

definition sha1_pad :: "byte list \<Rightarrow> byte list" where
  "sha1_pad m = m @ [0x80] @ replicate ((119 - len m mod 64) mod 64) 0 @ be64 (8 * len m)"

fun block_words :: "byte list \<Rightarrow> int list" where
  "block_words (a # b # c # d # bs) =
     (uint a * 16777216 + uint b * 65536 + uint c * 256 + uint d) # block_words bs"
| "block_words bs = []"

text \<open>The message schedule, newest word first.\<close>

fun schedule :: "nat \<Rightarrow> int list \<Rightarrow> int list" where
  "schedule 0 rs = rs"
| "schedule (Suc n) rs = schedule n (rotl32 1 (rs ! 2 XOR rs ! 7 XOR rs ! 13 XOR rs ! 15) # rs)"

datatype sha1_state = St int int int int int

definition Ch :: "int \<Rightarrow> int \<Rightarrow> int \<Rightarrow> int" where
  "Ch b c d = (b AND c) XOR ((4294967295 - b) AND d)"

definition Parity :: "int \<Rightarrow> int \<Rightarrow> int \<Rightarrow> int" where
  "Parity b c d = b XOR c XOR d"

definition Maj :: "int \<Rightarrow> int \<Rightarrow> int \<Rightarrow> int" where
  "Maj b c d = (b AND c) XOR (b AND d) XOR (c AND d)"

fun rounds :: "(int \<Rightarrow> int \<Rightarrow> int \<Rightarrow> int) \<Rightarrow> int \<Rightarrow> int list \<Rightarrow> sha1_state \<Rightarrow> sha1_state" where
  "rounds f k [] s = s"
| "rounds f k (w # ws) (St a b c d e) =
     rounds f k ws
       (St (add32 (add32 (add32 (add32 (rotl32 5 a) (f b c d)) e) k) w) a (rotl32 30 b) c d)"

fun add_state :: "sha1_state \<Rightarrow> sha1_state \<Rightarrow> sha1_state" where
  "add_state (St a b c d e) (St a' b' c' d' e') =
     St (add32 a a') (add32 b b') (add32 c c') (add32 d d') (add32 e e')"

definition compress :: "sha1_state \<Rightarrow> int list \<Rightarrow> sha1_state" where
  "compress s ws =
     add_state s
       (rounds Parity 0xCA62C1D6 (drop 60 ws)
         (rounds Maj 0x8F1BBCDC (take 20 (drop 40 ws))
           (rounds Parity 0x6ED9EBA1 (take 20 (drop 20 ws))
             (rounds Ch 0x5A827999 (take 20 ws) s))))"

fun blocks :: "sha1_state \<Rightarrow> byte list \<Rightarrow> sha1_state" where
  "blocks s [] = s"
| "blocks s (b # bs) =
     blocks (compress s (rev (schedule 64 (rev (block_words (take 64 (b # bs)))))))
       (drop 64 (b # bs))"

definition word_bytes :: "int \<Rightarrow> byte list" where
  "word_bytes w = [of_int (w div 16777216), of_int (w div 65536 mod 256),
                   of_int (w div 256 mod 256), of_int (w mod 256)]"

fun state_bytes :: "sha1_state \<Rightarrow> byte list" where
  "state_bytes (St a b c d e) =
     word_bytes a @ word_bytes b @ word_bytes c @ word_bytes d @ word_bytes e"

definition fips_sha1 :: "byte list \<Rightarrow> byte list" where
  "fips_sha1 m =
     state_bytes (blocks (St 0x67452301 0xEFCDAB89 0x98BADCFE 0x10325476 0xC3D2E1F0) (sha1_pad m))"

text \<open>
  A Node runtime without Web Crypto whose \<open>crypto\<close> module hashes with SHA-1 (the other
  hashes are not written out, so this platform does not offer them), with no random
  source and the clock at 59 seconds, the first time of the RFC 6238 vectors.
\<close>

definition node_sha1 :: platform where
  "node_sha1 =
     \<lparr>webCrypto = None,
      nodeCrypto = Some (\<lambda>name message. if name = ''sha1'' then Some (fips_sha1 message) else None),
      getRandomValues = None,
      date_now = 59000\<rparr>"

text \<open>The shared secret of the RFC 4226 and RFC 6238 vectors: ASCII \<open>12345678901234567890\<close>.\<close>

definition rfc_secret :: Secret where
  "rfc_secret = Secret [0x31, 0x32, 0x33, 0x34, 0x35, 0x36, 0x37, 0x38, 0x39, 0x30,
                        0x31, 0x32, 0x33, 0x34, 0x35, 0x36, 0x37, 0x38, 0x39, 0x30]"

text \<open>The two HMAC pads of that secret for SHA-1 (block size 64).\<close>

definition rfc_ipad :: "byte list" where
  "rfc_ipad = map (\<lambda>b. b XOR 0x36) (secret_bytes rfc_secret @ replicate 44 0)"

definition rfc_opad :: "byte list" where
  "rfc_opad = map (\<lambda>b. b XOR 0x5c) (secret_bytes rfc_secret @ replicate 44 0)"

text \<open>
  The tokens of the counters 910736, 910737 and 910738 for that secret (SHA-1, six
  digits), as \<open>HOTP.generate\<close> computes them: the last two coincide.
\<close>

definition rfc_candidates :: "int \<Rightarrow> string" where
  "rfc_candidates i = (if i = 910736 then ''602850'' else ''911617'')"

section \<open>Reading encodings back\<close>

text \<open>
  Two functions of the statements, not of the library: the number a byte sequence
  denotes in big-endian order, and the number a string of decimal digits denotes.
\<close>

definition be_value :: "byte list \<Rightarrow> int" where
  "be_value bs = foldl (\<lambda>v b. v * 256 + uint b) 0 bs"

definition decimal_value :: "string \<Rightarrow> nat" where
  "decimal_value s = foldl (\<lambda>v c. v * 10 + (of_char c - 48)) 0 s"

section \<open>The base32 loops, seen from a state\<close>

text \<open>
  Three functions of the proofs about the codec. \<open>encode_rest\<close> is the text
  \<open>base32Encode\<close> still appends when its loop stands at \<open>bits\<close> and \<open>v\<close> before the
  bytes \<open>arr\<close>, the closing partial symbol (\<open>encode_tail\<close>) included; \<open>write_from\<close>
  stores bytes at consecutive indices, as the decoder's \<open>arr[index++] = \<dots>\<close> does.
\<close>

definition encode_tail :: "nat \<Rightarrow> 32 word \<Rightarrow> string" where
  "encode_tail bits v =
     (if bits > 0 then [ALPHABET ! unat (push_bit (5 - bits) v AND 31)] else [])"

fun encode_rest :: "byte list \<Rightarrow> nat \<Rightarrow> 32 word \<Rightarrow> string" where
  "encode_rest [] bits v = encode_tail bits v"
| "encode_rest (a # arr) bits v =
     (case encode_while (bits + 8) (push_bit 8 v OR ucast a) [] of
        (bits', str') \<Rightarrow> str' @ encode_rest arr bits' (push_bit 8 v OR ucast a))"

fun write_from :: "byte list \<Rightarrow> nat \<Rightarrow> byte list \<Rightarrow> byte list" where
  "write_from arr index [] = arr"
| "write_from arr index (b # bs) = write_from (arr[index := b]) (Suc index) bs"

section \<open>Properties of the constructors\<close>

lemma canonicalizeAlgorithm_range:
  "canonicalizeAlgorithm a = Inr t \<Longrightarrow> t \<in> HashAlgorithm"
  unfolding canonicalizeAlgorithm_def HashAlgorithm_def Let_def
  by (auto split: if_splits)

lemma TOTP_new_algorithm:
  "TOTP_new env opts = Inr t \<Longrightarrow> t_algorithm t \<in> HashAlgorithm"
  unfolding TOTP_new_def
  by (auto split: sum.splits dest: canonicalizeAlgorithm_range)

text \<open>
  Claim C7. Every constructed configuration has an algorithm of the enumerated set, and
  any other name is rejected at construction. The \<open>TOTP\<close> constructor canonicalises
  the name (lemma \<open>TOTP_new_algorithm\<close>); the \<open>HOTP\<close> constructor only upper-cases it.
  At the name \<open>MD5\<close>, which canonicalisation rejects, the \<open>HOTP\<close> constructor
  returns an object whose algorithm is \<open>MD5\<close>.
\<close>

theorem HOTP_new_keeps_unlisted_algorithm:
  "canonicalizeAlgorithm ''MD5'' = Inl (UnsupportedAlgorithm ''MD5'') \<and>
   (\<exists>h. HOTP_new env (no_options\<lparr>opt_secret := Some (SecretObject (Secret [1, 2, 3])),
                                     opt_algorithm := Some ''MD5''\<rparr>) = Inr h \<and>
        h_algorithm h = ''MD5'' \<and> h_algorithm h \<notin> HashAlgorithm)"
  by (simp add: canonicalizeAlgorithm_def HOTP_new_def resolve_secret_def no_options_def
      default_to_def toUpperCase_def upper_table_def startsWith_def HashAlgorithm_def)

section \<open>Evaluation of the concrete platform\<close>

lemma replicate_numeral: "replicate (numeral k) x = x # replicate (pred_numeral k) x"
  by (simp add: numeral_eq_Suc)

lemma schedule_numeral:
  "schedule (numeral k) rs =
     schedule (pred_numeral k) (rotl32 1 (rs ! 2 XOR rs ! 7 XOR rs ! 13 XOR rs ! 15) # rs)"
  by (simp add: numeral_eq_Suc)

lemmas sha1_eval = fips_sha1_def sha1_pad_def be64_def compress_def rotl32_def rot_join_def
  add32_def word_bytes_def Ch_def Parity_def Maj_def replicate_numeral schedule_numeral

lemma length_state_bytes: "length (state_bytes s) = 20"
  by (cases s) (simp add: word_bytes_def)

lemma length_fips_sha1: "length (fips_sha1 m) = 20"
  by (simp add: fips_sha1_def length_state_bytes)

lemma toLowerCase_SHA1: "toLowerCase ''SHA1'' = ''sha1''"
  by (simp add: toLowerCase_def lower_table_def)

lemma hash_node_sha1: "hash node_sha1 ''SHA1'' m = Inr (fips_sha1 m)"
  by (simp add: hash_def getHashFunction_def toLowerCase_SHA1 sha1_def node_sha1_def
      backend_digest_def)

lemma blockSize_SHA1: "blockSize ''SHA1'' = 64"
  by (simp add: blockSize_def toLowerCase_SHA1)

section \<open>HMAC\<close>

lemma padding_map:
  "n \<le> length k \<Longrightarrow> map (\<lambda>i. k ! i XOR c) [0..<n] = map (\<lambda>b. b XOR c) (take n k)"
  by (simp add: list_eq_iff_nth_eq)

lemma getHashFunction_cases:
  "getHashFunction algorithm =
     (if toLowerCase algorithm \<in> {''sha1'', ''sha256'', ''sha512''}
      then Inr (if toLowerCase algorithm = ''sha1'' then sha1
                else if toLowerCase algorithm = ''sha256'' then sha256 else sha512)
      else Inl (UnsupportedHash algorithm))"
  by (simp add: getHashFunction_def)

lemma hmacDigest_unsupported:
  "toLowerCase algorithm \<notin> {''sha1'', ''sha256'', ''sha512''} \<Longrightarrow>
   hmacDigest env algorithm key message = Inl (UnsupportedHash algorithm)"
  by (simp add: hmacDigest_def getHashFunction_def)

lemma hmacDigest_supported:
  assumes H: "\<And>m. hash env algorithm m = Inr (H m)"
    and len: "\<And>m. length (H m) \<le> blockSize algorithm"
  shows "hmacDigest env algorithm key message =
     Inr (H (map (\<lambda>b. b XOR 0x5c)
               ((if length key > blockSize algorithm then H key else key) @
                replicate (blockSize algorithm -
                           length (if length key > blockSize algorithm then H key else key)) 0) @
             H (map (\<lambda>b. b XOR 0x36)
                  ((if length key > blockSize algorithm then H key else key) @
                   replicate (blockSize algorithm -
                              length (if length key > blockSize algorithm then H key else key)) 0) @
                message)))"
proof -
  obtain f where f: "getHashFunction algorithm = Inr f"
    using H [of "[]"] by (auto simp: hash_def split: sum.splits)
  have fH: "f env m = Inr (H m)" for m
    using H [of m] by (simp add: hash_def f)
  have pads: "map (\<lambda>i. k ! i XOR c) [0..<blockSize algorithm] = map (\<lambda>b. b XOR c) k"
    if "length k = blockSize algorithm" for k and c :: byte
    using padding_map [of "blockSize algorithm" k c] that by simp
  show ?thesis
  proof (cases "length key > blockSize algorithm")
    case True
    show ?thesis
    proof (cases "length (H key) < blockSize algorithm")
      case short: True
      then show ?thesis
        using True by (simp add: hmacDigest_def f fH Let_def pads)
    next
      case False
      then have "length (H key) = blockSize algorithm"
        using len [of key] by simp
      then show ?thesis
        using True by (simp add: hmacDigest_def f fH Let_def pads)
    qed
  next
    case False
    show ?thesis
    proof (cases "length key < blockSize algorithm")
      case short: True
      then show ?thesis
        using False by (simp add: hmacDigest_def f fH Let_def pads)
    next
      case exact: False
      then have "length key = blockSize algorithm"
        using False by simp
      then show ?thesis
        by (simp add: hmacDigest_def f fH Let_def pads)
    qed
  qed
qed

text \<open>
  Claim C1, as the code has it. \<open>hmacDigest\<close> knows three algorithm names, compared
  without regard to case: \<open>sha1\<close>, \<open>sha256\<close> and \<open>sha512\<close>. For any other name, the
  other canonical names included, it throws \<open>Unsupported algorithm\<close>. For the three
  names the block size is 128 bytes for \<open>sha512\<close> and 64 bytes otherwise; with \<open>H\<close> the
  platform's hash of that name (digests no longer than a block), a key longer than the
  block size is replaced by its hash, the key is zero-padded to the block size, and the
  result is \<open>H (pad 0x5c @ H (pad 0x36 @ message))\<close>.
\<close>

theorem hmacDigest_construction:
  "(toLowerCase algorithm \<notin> {''sha1'', ''sha256'', ''sha512''} \<longrightarrow>
      hmacDigest env algorithm key message = Inl (UnsupportedHash algorithm)) \<and>
   (toLowerCase algorithm \<in> {''sha1'', ''sha256'', ''sha512''} \<longrightarrow>
    (\<forall>m. hash env algorithm m = Inr (H m)) \<longrightarrow>
    (\<forall>m. length (H m) \<le> (if toLowerCase algorithm = ''sha512'' then 128 else 64)) \<longrightarrow>
      (\<exists>B K. B = (if toLowerCase algorithm = ''sha512'' then 128 else 64) \<and>
             K = (if length key > B then H key else key) \<and>
             hmacDigest env algorithm key message =
               Inr (H (map (\<lambda>b. b XOR 0x5c) (K @ replicate (B - length K) 0) @
                       H (map (\<lambda>b. b XOR 0x36) (K @ replicate (B - length K) 0) @ message)))))"
  using hmacDigest_unsupported [of algorithm env key message]
    hmacDigest_supported [of env algorithm H key message]
  by (simp add: blockSize_def)

lemma m255: "(255 :: 32 word) = mask 8" by (simp add: mask_eq_exp_minus_1)
lemma m127: "(127 :: 32 word) = mask 7" by (simp add: mask_eq_exp_minus_1)
lemma m15: "(15 :: 32 word) = mask 4" by (simp add: mask_eq_exp_minus_1)
lemma m31: "(31 :: 32 word) = mask 5" by (simp add: mask_eq_exp_minus_1)

lemma low_byte: "(ucast ((word_of_int acc :: 32 word) AND 255) :: byte) = word_of_int acc"
  by (rule bit_word_eqI) (auto simp: m255 bit_simps)

lemma low_byte_uint: "uint (ucast ((word_of_int acc :: 32 word) AND 255) :: byte) = acc mod 256"
  by (simp add: low_byte uint_word_of_int)

lemma trunc_nonneg: "\<not> bit (push_bit 24 ((a :: 32 word) AND 127) OR push_bit 16 (b AND 255) OR push_bit 8 (c AND 255) OR (d AND 255)) 31"
  by (auto simp: m255 m127 bit_simps)

lemma sint_nonneg:
  fixes w :: "32 word"
  assumes "\<not> bit w 31"
  shows "sint w = uint w"
proof -
  have "sint w = take_bit 31 (uint w)"
    using assms by (simp add: sint_uint signed_take_bit_eq_if_positive bit_uint_iff)
  also have "\<dots> = take_bit (Suc 31) (uint w)"
    using assms take_bit_Suc_from_most [of 31 "uint w"] by (simp add: bit_uint_iff)
  also have "\<dots> = uint w"
    by (simp add: take_bit_int_eq_self_iff uint_lt2p [where 'a = 32, simplified])
  finally show ?thesis .
qed

lemma take_zeros:
  "n \<le> length arr \<Longrightarrow> (\<forall>j<n. arr ! j = (0 :: byte)) \<Longrightarrow> take n arr = replicate n 0"
  by (intro nth_equalityI) simp_all

lemma uintDecode_for_eq:
  "k \<le> length arr \<Longrightarrow> (\<forall>j<k. arr ! j = 0) \<Longrightarrow>
   uintDecode_for k acc arr = map (\<lambda>j. word_of_int (acc div 256 ^ (k - 1 - j))) [0..<k] @ drop k arr"
proof (induction k arbitrary: acc arr)
  case 0
  then show ?case by simp
next
  case (Suc i)
  show ?case
  proof (cases "acc = 0")
    case True
    have "take (Suc i) arr = replicate (Suc i) 0"
      using Suc.prems by (intro take_zeros)
    then have "arr = replicate (Suc i) 0 @ drop (Suc i) arr"
      by (metis append_take_drop_id)
    moreover have "map (\<lambda>j. word_of_int (0 div 256 ^ (Suc i - 1 - j)) :: byte) [0..<Suc i] =
                   replicate (Suc i) 0"
      by (simp add: map_replicate_const)
    ultimately show ?thesis using True by simp
  next
    case False
    let ?b = "word_of_int acc :: byte"
    have step: "uintDecode_for (Suc i) acc arr = uintDecode_for i (acc div 256) (arr[i := ?b])"
    proof -
      have "(acc - acc mod 256) div 256 = acc div 256"
        by (simp add: minus_mod_eq_mult_div)
      then show ?thesis
        using False by (simp add: low_byte low_byte_uint uint_word_of_int)
    qed
    have "uintDecode_for i (acc div 256) (arr[i := ?b]) =
            map (\<lambda>j. word_of_int (acc div 256 div 256 ^ (i - 1 - j))) [0..<i] @ drop i (arr[i := ?b])"
      using Suc.prems by (intro Suc.IH) auto
    also have "drop i (arr[i := ?b]) = ?b # drop (Suc i) arr"
      using Suc.prems by (simp add: drop_update_cancel Cons_nth_drop_Suc [symmetric] upd_conv_take_nth_drop)
    also have "map (\<lambda>j. word_of_int (acc div 256 div 256 ^ (i - 1 - j))) [0..<i] =
               map (\<lambda>j. word_of_int (acc div 256 ^ (Suc i - 1 - j)) :: byte) [0..<i]"
    proof (rule map_cong [OF refl])
      fix j assume "j \<in> set [0..<i]"
      then have "Suc i - 1 - j = Suc (i - 1 - j)" by auto
      then show "(word_of_int (acc div 256 div 256 ^ (i - 1 - j)) :: byte) =
                 word_of_int (acc div 256 ^ (Suc i - 1 - j))"
        by (simp add: zdiv_zmult2_eq)
    qed
    finally show ?thesis
      using step by simp
  qed
qed

lemma uintDecode_eq:
  "uintDecode num = map (\<lambda>j. word_of_int (num div 256 ^ (7 - j))) [0..<8]"
  using uintDecode_for_eq [of 8 "replicate 8 0" num]
  by (simp add: uintDecode_def)


lemma be_value_snoc: "be_value (bs @ [b]) = be_value bs * 256 + uint b"
  by (simp add: be_value_def)

lemma be_value_bytes:
  "be_value (map (\<lambda>j. word_of_int (n div 256 ^ (k - 1 - j)) :: byte) [0..<k]) = n mod 256 ^ k"
proof (induction k arbitrary: n)
  case 0
  then show ?case by (simp add: be_value_def)
next
  case (Suc k)
  have "map (\<lambda>j. word_of_int (n div 256 ^ (Suc k - 1 - j)) :: byte) [0..<k] =
        map (\<lambda>j. word_of_int (n div 256 div 256 ^ (k - 1 - j))) [0..<k]"
  proof (rule map_cong [OF refl])
    fix j assume "j \<in> set [0..<k]"
    then have "Suc k - 1 - j = Suc (k - 1 - j)" by auto
    then show "(word_of_int (n div 256 ^ (Suc k - 1 - j)) :: byte) =
               word_of_int (n div 256 div 256 ^ (k - 1 - j))"
      by (simp add: zdiv_zmult2_eq)
  qed
  then have "be_value (map (\<lambda>j. word_of_int (n div 256 ^ (Suc k - 1 - j)) :: byte) [0..<k]) =
        (n div 256) mod 256 ^ k"
    by (simp only: Suc.IH)
  moreover have "be_value (map (\<lambda>j. word_of_int (n div 256 ^ (Suc k - 1 - j)) :: byte) [0..<Suc k]) =
        be_value (map (\<lambda>j. word_of_int (n div 256 ^ (Suc k - 1 - j)) :: byte) [0..<k]) * 256 +
        uint (word_of_int n :: byte)"
    by (simp add: be_value_snoc)
  ultimately have "be_value (map (\<lambda>j. word_of_int (n div 256 ^ (Suc k - 1 - j)) :: byte) [0..<Suc k]) =
        (n div 256) mod 256 ^ k * 256 + n mod 256"
    by (simp only: uint_word_of_int) simp
  also have "\<dots> = n mod 256 ^ Suc k"
    using zmod_zmult2_eq [of "256 ^ k" n 256] by simp
  finally show ?case .
qed

lemma be_value_uintDecode: "be_value (uintDecode num) = num mod 2 ^ 64"
  using be_value_bytes [of num 8] by (simp add: uintDecode_eq)

lemma length_uintDecode: "length (uintDecode num) = 8"
  by (simp add: uintDecode_eq)


section \<open>Truncation\<close>

lemma digest_at_eq:
  "digest_at d i m = (if 0 \<le> i \<and> i < int (length d) then ucast (d ! nat i) else 0) AND m"
  by (simp add: digest_at_def)

lemma truncate_digest_sint:
  "\<exists>a b c e. truncate_digest d =
     sint (push_bit 24 (a AND 127) OR push_bit 16 (b AND 255) OR push_bit 8 (c AND 255) OR
           ((e :: 32 word) AND 255))"
  unfolding truncate_digest_def Let_def digest_at_eq by blast

lemma truncate_digest_bounds: "0 \<le> truncate_digest d \<and> truncate_digest d < 2 ^ 31"
proof -
  obtain a b c e where t: "truncate_digest d =
     sint (push_bit 24 (a AND 127) OR push_bit 16 (b AND 255) OR push_bit 8 (c AND 255) OR
           ((e :: 32 word) AND 255))"
    using truncate_digest_sint by blast
  let ?w = "push_bit 24 (a AND 127) OR push_bit 16 (b AND 255) OR push_bit 8 (c AND 255) OR
            (e AND 255)"
  have "sint ?w = uint ?w"
    by (rule sint_nonneg) (rule trunc_nonneg)
  moreover have "sint ?w < 2 ^ 31"
    using sint_less [of ?w] by simp
  ultimately show ?thesis
    by (simp add: t)
qed

lemma uint_byte_and_255: "uint ((ucast (b :: byte) :: 32 word) AND 255) = uint b"
proof -
  have "uint ((ucast b :: 32 word) AND mask 8) = take_bit 8 (uint b)"
    by (simp add: unsigned_take_bit_eq uint_up_ucast is_up flip: take_bit_eq_mask)
  also have "\<dots> = uint b"
    using uint_lt2p [of b] by (simp add: take_bit_int_eq_self)
  finally show ?thesis by (simp add: m255)
qed

lemma uint_byte_and_127: "uint ((ucast (b :: byte) :: 32 word) AND 127) = uint b mod 128"
proof -
  have "uint ((ucast b :: 32 word) AND mask 7) = take_bit 7 (uint b)"
    by (simp add: unsigned_take_bit_eq uint_up_ucast is_up flip: take_bit_eq_mask)
  then show ?thesis by (simp add: m127 take_bit_eq_mod)
qed

lemma uint_byte_and_15: "uint ((ucast (b :: byte) :: 32 word) AND 15) = uint b mod 16"
proof -
  have "uint ((ucast b :: 32 word) AND mask 4) = take_bit 4 (uint b)"
    by (simp add: unsigned_take_bit_eq uint_up_ucast is_up flip: take_bit_eq_mask)
  then show ?thesis by (simp add: m15 take_bit_eq_mod)
qed

lemma or_low_int:
  fixes x y :: int
  assumes "0 \<le> y" "y < 2 ^ n"
  shows "push_bit n x OR y = x * 2 ^ n + y"
proof -
  have "push_bit n x OR y = concat_bit n y x"
    using assms by (simp add: concat_bit_def take_bit_int_eq_self or.commute)
  also have "\<dots> = take_bit n y + push_bit n x"
    by (rule concat_bit_eq)
  finally show ?thesis
    using assms by (simp add: take_bit_int_eq_self push_bit_eq_mult)
qed

lemma uint_push_small:
  fixes w :: "32 word"
  assumes "uint w * 2 ^ n < 2 ^ 32"
  shows "uint (push_bit n w) = uint w * 2 ^ n"
proof -
  have "uint (push_bit n w) = take_bit 32 (push_bit n (uint w))"
    by (simp add: unsigned_push_bit_eq)
  also have "\<dots> = push_bit n (uint w)"
    using assms by (simp add: take_bit_int_eq_self push_bit_eq_mult)
  finally show ?thesis by (simp add: push_bit_eq_mult)
qed

lemma dynamic_word_uint:
  fixes b0 b1 b2 b3 :: byte
  shows "uint (push_bit 24 (ucast b0 AND 127) OR push_bit 16 (ucast b1 AND 255) OR
               push_bit 8 (ucast b2 AND 255) OR (ucast b3 AND (255 :: 32 word))) =
         (uint b0 mod 128) * 2 ^ 24 + uint b1 * 2 ^ 16 + uint b2 * 2 ^ 8 + uint b3"
proof -
  let ?A = "uint b0 mod 128" and ?B = "uint b1" and ?C = "uint b2" and ?D = "uint b3"
  have bounds: "0 \<le> ?A" "?A < 128" "0 \<le> ?B" "?B < 256" "0 \<le> ?C" "?C < 256" "0 \<le> ?D" "?D < 256"
    using uint_lt2p [of b1] uint_lt2p [of b2] uint_lt2p [of b3] by simp_all
  have pA: "uint (push_bit 24 (ucast b0 AND 127 :: 32 word)) = ?A * 2 ^ 24"
    using bounds by (subst uint_push_small) (simp_all add: uint_byte_and_127)
  have pB: "uint (push_bit 16 (ucast b1 AND 255 :: 32 word)) = ?B * 2 ^ 16"
    using bounds by (subst uint_push_small) (simp_all add: uint_byte_and_255)
  have pC: "uint (push_bit 8 (ucast b2 AND 255 :: 32 word)) = ?C * 2 ^ 8"
    using bounds by (subst uint_push_small) (simp_all add: uint_byte_and_255)
  have "uint (push_bit 24 (ucast b0 AND 127) OR push_bit 16 (ucast b1 AND 255) OR
               push_bit 8 (ucast b2 AND 255) OR (ucast b3 AND (255 :: 32 word))) =
        ?A * 2 ^ 24 OR ?B * 2 ^ 16 OR ?C * 2 ^ 8 OR ?D"
    by (simp only: uint_or pA pB pC uint_byte_and_255)
  also have "?A * 2 ^ 24 OR ?B * 2 ^ 16 OR ?C * 2 ^ 8 OR ?D =
             push_bit 8 (push_bit 8 (push_bit 8 ?A OR ?B) OR ?C) OR ?D"
  proof -
    have "push_bit 8 (push_bit 8 (push_bit 8 ?A OR ?B) OR ?C) OR ?D =
          push_bit 24 ?A OR push_bit 16 ?B OR push_bit 8 ?C OR ?D"
      by (simp add: or.assoc)
    then show ?thesis
      by (simp only: push_bit_eq_mult)
  qed
  also have "\<dots> = ((?A * 2 ^ 8 + ?B) * 2 ^ 8 + ?C) * 2 ^ 8 + ?D"
    using bounds by (simp add: or_low_int)
  finally show ?thesis by simp
qed


lemma truncate_digest_value:
  assumes "20 \<le> length d"
  defines "off \<equiv> nat (uint (last d) mod 16)"
  shows "truncate_digest d =
           (uint (d ! off) mod 128) * 2 ^ 24 + uint (d ! (off + 1)) * 2 ^ 16 +
           uint (d ! (off + 2)) * 2 ^ 8 + uint (d ! (off + 3))"
proof -
  have ne: "d \<noteq> []" using assms by auto
  have "digest_at d (int (length d) - 1) 15 = ucast (last d) AND 15"
    using ne assms(1) by (simp add: digest_at_def last_conv_nth nat_diff_distrib)
  then have offset: "uint (digest_at d (int (length d) - 1) 15) = int off"
    by (simp add: uint_byte_and_15 off_def)
  have off_lt: "off < 16"
    by (simp add: off_def nat_less_iff)
  have at: "digest_at d (int off + int k) m = ucast (d ! (off + k)) AND m" if "k \<le> 3" for k m
    using that off_lt assms(1) by (simp add: digest_at_def nat_add_distrib)
  have w: "truncate_digest d =
        sint (push_bit 24 (ucast (d ! off) AND 127) OR push_bit 16 (ucast (d ! (off + 1)) AND 255) OR
              push_bit 8 (ucast (d ! (off + 2)) AND 255) OR
              (ucast (d ! (off + 3)) AND (255 :: 32 word)))"
    using at [of 0 127] at [of 1 255] at [of 2 255] at [of 3 255]
    by (simp add: truncate_digest_def Let_def offset)
  show ?thesis
    unfolding w
    by (subst sint_nonneg, rule trunc_nonneg) (rule dynamic_word_uint)
qed

section \<open>Decimal strings\<close>

lemma digit_char_cases:
  "d < 10 \<Longrightarrow> digit_char d \<in> set ''0123456789'' \<and> of_char (digit_char d) = (48 + d :: nat)"
proof -
  assume "d < 10"
  then have "d \<in> {0, 1, 2, 3, 4, 5, 6, 7, 8, 9}" by auto
  then show ?thesis
    by (auto simp: digit_char_def)
qed

lemma set_decimal: "set (decimal n) \<subseteq> set ''0123456789''"
proof (induction n rule: decimal.induct)
  case (1 n)
  show ?case
  proof (cases "n < 10")
    case True
    then show ?thesis
      using digit_char_cases [of n] by (subst decimal.simps) simp
  next
    case False
    then show ?thesis
      using 1 digit_char_cases [of "n mod 10"] by (subst decimal.simps) simp
  qed
qed

lemma decimal_value_snoc: "decimal_value (s @ [c]) = decimal_value s * 10 + (of_char c - 48)"
  by (simp add: decimal_value_def)

lemma decimal_value_decimal: "decimal_value (decimal n) = n"
proof (induction n rule: decimal.induct)
  case (1 n)
  show ?case
  proof (cases "n < 10")
    case True
    then show ?thesis
      using digit_char_cases [of n] by (subst decimal.simps) (simp add: decimal_value_def)
  next
    case False
    then show ?thesis
      using 1 digit_char_cases [of "n mod 10"]
      by (subst decimal.simps) (simp add: decimal_value_snoc)
  qed
qed

lemma length_decimal: "0 < k \<Longrightarrow> n < 10 ^ k \<Longrightarrow> length (decimal n) \<le> k"
proof (induction n arbitrary: k rule: decimal.induct)
  case (1 n)
  show ?case
  proof (cases "n < 10")
    case True
    then show ?thesis
      using "1.prems" by (subst decimal.simps) simp
  next
    case False
    obtain j where k: "k = Suc j" using "1.prems" by (cases k) auto
    have "0 < j"
      using False "1.prems" k by (cases j) auto
    moreover have "n div 10 < 10 ^ j"
      using "1.prems" k by (simp add: less_mult_imp_div_less mult.commute)
    ultimately have "length (decimal (n div 10)) \<le> j"
      using False "1.IH" by simp
    then show ?thesis
      using False k by (subst decimal.simps) simp
  qed
qed

lemma decimal_value_zeros: "decimal_value (replicate k CHR ''0'' @ s) = decimal_value s"
proof (induction k)
  case 0
  then show ?case by simp
next
  case (Suc k)
  have "decimal_value (CHR ''0'' # t) = decimal_value t" for t
  proof (induction t rule: rev_induct)
    case Nil
    then show ?case by (simp add: decimal_value_def)
  next
    case (snoc c t)
    then show ?case
      using decimal_value_snoc [of "CHR ''0'' # t" c] decimal_value_snoc [of t c] by simp
  qed
  then show ?case using Suc by simp
qed

lemma js_rem_nonneg: "0 \<le> a \<Longrightarrow> 0 < b \<Longrightarrow> js_rem a b = a mod b"
  by (cases "a = 0") (simp_all add: js_rem_def)


section \<open>HOTP generation\<close>

lemma byte_of_int_mod: "(word_of_int (x mod 256) :: byte) = word_of_int x"
  by (simp add: word_of_int_eq_iff take_bit_eq_mod)

lemma uintDecode_bytes:
  "uintDecode num =
     [word_of_int (num div 72057594037927936 mod 256), word_of_int (num div 281474976710656 mod 256),
      word_of_int (num div 1099511627776 mod 256), word_of_int (num div 4294967296 mod 256),
      word_of_int (num div 16777216 mod 256), word_of_int (num div 65536 mod 256),
      word_of_int (num div 256 mod 256), word_of_int (num mod 256)]"
  by (simp only: byte_of_int_mod) (simp add: uintDecode_eq upt_conv_Cons)

lemma rfc_hmac:
  "hmacDigest node_sha1 ''SHA1'' (secret_bytes rfc_secret) message =
     Inr (fips_sha1 (rfc_opad @ fips_sha1 (rfc_ipad @ message)))"
  using hmacDigest_supported [of node_sha1 "''SHA1''" fips_sha1 "secret_bytes rfc_secret" message]
  by (simp add: hash_node_sha1 length_fips_sha1 blockSize_SHA1 rfc_ipad_def rfc_opad_def
      rfc_secret_def)

lemma HOTP_generate_eq:
  assumes "hmacDigest env algorithm (secret_bytes secret) (uintDecode counter) = Inr digest"
  shows "HOTP_generate env secret (Some algorithm) (Some digits) (Some counter) =
           Inr (padStart digits CHR ''0''
                  (decimal (nat (truncate_digest digest) mod 10 ^ digits)))"
proof -
  have nonneg: "0 \<le> truncate_digest digest"
    using truncate_digest_bounds by blast
  have "js_rem (truncate_digest digest) (10 ^ digits) = truncate_digest digest mod 10 ^ digits"
    by (rule js_rem_nonneg [OF nonneg]) simp
  moreover have "nat (truncate_digest digest mod 10 ^ digits) =
                 nat (truncate_digest digest) mod 10 ^ digits"
    using nonneg by (simp add: nat_mod_distrib nat_power_eq)
  moreover have "\<not> truncate_digest digest mod 10 ^ digits < 0"
    by (simp add: not_less)
  ultimately show ?thesis
    using assms by (simp add: HOTP_generate_def default_to_def toString_def)
qed

lemma HOTP_generate_digits:
  assumes "0 < digits"
    and "hmacDigest env algorithm (secret_bytes secret) (uintDecode counter) = Inr digest"
  shows "\<exists>token. HOTP_generate env secret (Some algorithm) (Some digits) (Some counter) = Inr token \<and>
           length token = digits \<and> set token \<subseteq> set ''0123456789'' \<and>
           decimal_value token = nat (truncate_digest digest) mod 10 ^ digits"
proof -
  let ?v = "nat (truncate_digest digest) mod 10 ^ digits"
  have "length (decimal ?v) \<le> digits"
    using assms(1) by (intro length_decimal) simp_all
  then have "length (padStart digits CHR ''0'' (decimal ?v)) = digits"
    by (simp add: padStart_def)
  moreover have "set (padStart digits CHR ''0'' (decimal ?v)) \<subseteq> set ''0123456789''"
    using set_decimal [of ?v] by (auto simp: padStart_def)
  moreover have "decimal_value (padStart digits CHR ''0'' (decimal ?v)) = ?v"
    by (simp add: padStart_def decimal_value_zeros decimal_value_decimal)
  ultimately show ?thesis
    using HOTP_generate_eq [OF assms(2)] by simp
qed

text \<open>
  Claim C2. For digits in \<open>{6, 7, 8}\<close> and any counter, \<open>HOTP.generate\<close> feeds HMAC with
  the counter as exactly 8 bytes, big-endian (they denote the counter modulo \<open>2^64\<close>);
  whenever HMAC delivers a digest, the token is a string of exactly \<open>digits\<close> decimal
  characters, and, the digest having at least 20 bytes, it denotes the 31-bit value read
  at \<open>offset = digest[last] & 0x0F\<close> from \<open>digest[offset..offset+3]\<close>, reduced modulo
  \<open>10^digits\<close> (so it is that number padded with zeros on the left).
\<close>

theorem HOTP_generate_token:
  assumes "digits \<in> {6, 7, 8}"
    and "hmacDigest env algorithm (secret_bytes secret) (uintDecode counter) = Inr digest"
  shows "length (uintDecode counter) = 8 \<and>
         be_value (uintDecode counter) = counter mod 2 ^ 64 \<and>
         (\<exists>token. HOTP_generate env secret (Some algorithm) (Some digits) (Some counter) = Inr token \<and>
            length token = digits \<and> set token \<subseteq> set ''0123456789'' \<and>
            (20 \<le> length digest \<longrightarrow>
               int (decimal_value token) =
                 ((uint (digest ! nat (uint (last digest) mod 16)) mod 128) * 2 ^ 24 +
                  uint (digest ! (nat (uint (last digest) mod 16) + 1)) * 2 ^ 16 +
                  uint (digest ! (nat (uint (last digest) mod 16) + 2)) * 2 ^ 8 +
                  uint (digest ! (nat (uint (last digest) mod 16) + 3))) mod 10 ^ digits))"
proof -
  have pos: "0 < digits" using assms(1) by auto
  obtain token where token:
    "HOTP_generate env secret (Some algorithm) (Some digits) (Some counter) = Inr token"
    "length token = digits" "set token \<subseteq> set ''0123456789''"
    "decimal_value token = nat (truncate_digest digest) mod 10 ^ digits"
    using HOTP_generate_digits [OF pos assms(2)] by blast
  have tv: "int (decimal_value token) = truncate_digest digest mod 10 ^ digits"
    using truncate_digest_bounds [of digest] by (simp add: token(4) zmod_int)
  show ?thesis
  proof (intro conjI exI [of _ token] impI)
    show "length (uintDecode counter) = 8"
      by (rule length_uintDecode)
    show "be_value (uintDecode counter) = counter mod 2 ^ 64"
      by (rule be_value_uintDecode)
    show "HOTP_generate env secret (Some algorithm) (Some digits) (Some counter) = Inr token"
      by (rule token(1))
    show "length token = digits"
      by (rule token(2))
    show "set token \<subseteq> set ''0123456789''"
      by (rule token(3))
  next
    assume "20 \<le> length digest"
    then show "int (decimal_value token) =
                 ((uint (digest ! nat (uint (last digest) mod 16)) mod 128) * 2 ^ 24 +
                  uint (digest ! (nat (uint (last digest) mod 16) + 1)) * 2 ^ 16 +
                  uint (digest ! (nat (uint (last digest) mod 16) + 2)) * 2 ^ 8 +
                  uint (digest ! (nat (uint (last digest) mod 16) + 3))) mod 10 ^ digits"
      unfolding tv by (subst truncate_digest_value) simp_all
  qed
qed

lemma rfc_inner_c0: "fips_sha1 (rfc_ipad @ [0, 0, 0, 0, 0, 0, 0, 0]) = [8, 145, 217, 190, 9, 187, 22, 199, 200, 114, 45, 243, 104, 216, 99, 80, 102, 126, 73, 158]"
  by (simp add: rfc_ipad_def rfc_secret_def sha1_eval)

lemma rfc_outer_c0: "fips_sha1 (rfc_opad @ [8, 145, 217, 190, 9, 187, 22, 199, 200, 114, 45, 243, 104, 216, 99, 80, 102, 126, 73, 158]) = [204, 147, 207, 24, 80, 141, 148, 147, 76, 100, 182, 93, 139, 167, 102, 127, 183, 205, 228, 176]"
  by (simp add: rfc_opad_def rfc_secret_def sha1_eval)

lemma rfc_hmac_c0:
  "hmacDigest node_sha1 ''SHA1'' (secret_bytes rfc_secret) (uintDecode 0) = Inr [204, 147, 207, 24, 80, 141, 148, 147, 76, 100, 182, 93, 139, 167, 102, 127, 183, 205, 228, 176]"
  by (simp add: rfc_hmac uintDecode_bytes rfc_inner_c0 rfc_outer_c0)

theorem HOTP_generate_token_witness:
  "(6 :: nat) \<in> {6, 7, 8} \<and>
   hmacDigest node_sha1 ''SHA1'' (secret_bytes rfc_secret) (uintDecode 0) =
     Inr [204, 147, 207, 24, 80, 141, 148, 147, 76, 100, 182, 93, 139, 167, 102, 127, 183, 205,
          228, 176] \<and>
   length (uintDecode 0) = 8 \<and> be_value (uintDecode 0) = 0 \<and>
   (\<exists>token. HOTP_generate node_sha1 rfc_secret (Some ''SHA1'') (Some 6) (Some 0) = Inr token \<and>
      length token = 6 \<and> set token \<subseteq> set ''0123456789'' \<and>
      int (decimal_value token) = 755224)"
  using HOTP_generate_token [of 6 node_sha1 "''SHA1''" rfc_secret 0, OF _ rfc_hmac_c0]
    rfc_hmac_c0
  by simp

section \<open>The RFC 4226 secret on the SHA-1 platform\<close>

lemma rfc_token_c0_6:
  "HOTP_generate node_sha1 rfc_secret (Some ''SHA1'') (Some 6) (Some 0) = Inr ''755224''"
  by (simp add: HOTP_generate_eq [OF rfc_hmac_c0] truncate_digest_value padStart_def
      decimal.simps digit_char_def)

lemma rfc_inner_c1: "fips_sha1 (rfc_ipad @ [0, 0, 0, 0, 0, 0, 0, 1]) = [174, 57, 138, 210, 229, 57, 214, 92, 93, 162, 218, 156, 138, 97, 52, 65, 151, 57, 58, 140]"
  by (simp add: rfc_ipad_def rfc_secret_def sha1_eval)

lemma rfc_outer_c1: "fips_sha1 (rfc_opad @ [174, 57, 138, 210, 229, 57, 214, 92, 93, 162, 218, 156, 138, 97, 52, 65, 151, 57, 58, 140]) = [117, 164, 138, 25, 212, 203, 225, 0, 100, 78, 138, 193, 57, 126, 234, 116, 122, 45, 51, 171]"
  by (simp add: rfc_opad_def rfc_secret_def sha1_eval)

lemma rfc_hmac_c1:
  "hmacDigest node_sha1 ''SHA1'' (secret_bytes rfc_secret) (uintDecode 1) = Inr [117, 164, 138, 25, 212, 203, 225, 0, 100, 78, 138, 193, 57, 126, 234, 116, 122, 45, 51, 171]"
  by (simp add: rfc_hmac uintDecode_bytes rfc_inner_c1 rfc_outer_c1)

lemma rfc_token_c1_6:
  "HOTP_generate node_sha1 rfc_secret (Some ''SHA1'') (Some 6) (Some 1) = Inr ''287082''"
  by (simp add: HOTP_generate_eq [OF rfc_hmac_c1] truncate_digest_value padStart_def
      decimal.simps digit_char_def)

lemma rfc_token_c1_8:
  "HOTP_generate node_sha1 rfc_secret (Some ''SHA1'') (Some 8) (Some 1) = Inr ''94287082''"
  by (simp add: HOTP_generate_eq [OF rfc_hmac_c1] truncate_digest_value padStart_def
      decimal.simps digit_char_def)

lemma rfc_inner_c910736: "fips_sha1 (rfc_ipad @ [0, 0, 0, 0, 0, 13, 229, 144]) = [164, 81, 165, 120, 121, 156, 116, 103, 146, 0, 94, 6, 241, 74, 169, 221, 96, 225, 155, 24]"
  by (simp add: rfc_ipad_def rfc_secret_def sha1_eval)

lemma rfc_outer_c910736: "fips_sha1 (rfc_opad @ [164, 81, 165, 120, 121, 156, 116, 103, 146, 0, 94, 6, 241, 74, 169, 221, 96, 225, 155, 24]) = [193, 1, 71, 98, 105, 67, 199, 160, 162, 22, 215, 53, 196, 61, 60, 132, 236, 242, 168, 224]"
  by (simp add: rfc_opad_def rfc_secret_def sha1_eval)

lemma rfc_hmac_c910736:
  "hmacDigest node_sha1 ''SHA1'' (secret_bytes rfc_secret) (uintDecode 910736) = Inr [193, 1, 71, 98, 105, 67, 199, 160, 162, 22, 215, 53, 196, 61, 60, 132, 236, 242, 168, 224]"
  by (simp add: rfc_hmac uintDecode_bytes rfc_inner_c910736 rfc_outer_c910736)

lemma rfc_token_c910736_6:
  "HOTP_generate node_sha1 rfc_secret (Some ''SHA1'') (Some 6) (Some 910736) = Inr ''602850''"
  by (simp add: HOTP_generate_eq [OF rfc_hmac_c910736] truncate_digest_value padStart_def
      decimal.simps digit_char_def)

lemma rfc_inner_c910737: "fips_sha1 (rfc_ipad @ [0, 0, 0, 0, 0, 13, 229, 145]) = [150, 208, 198, 115, 225, 206, 221, 121, 146, 202, 138, 40, 127, 193, 52, 253, 29, 49, 242, 59]"
  by (simp add: rfc_ipad_def rfc_secret_def sha1_eval)

lemma rfc_outer_c910737: "fips_sha1 (rfc_opad @ [150, 208, 198, 115, 225, 206, 221, 121, 146, 202, 138, 40, 127, 193, 52, 253, 29, 49, 242, 59]) = [241, 218, 189, 144, 251, 1, 37, 147, 124, 28, 62, 126, 65, 252, 250, 77, 228, 181, 31, 34]"
  by (simp add: rfc_opad_def rfc_secret_def sha1_eval)

lemma rfc_hmac_c910737:
  "hmacDigest node_sha1 ''SHA1'' (secret_bytes rfc_secret) (uintDecode 910737) = Inr [241, 218, 189, 144, 251, 1, 37, 147, 124, 28, 62, 126, 65, 252, 250, 77, 228, 181, 31, 34]"
  by (simp add: rfc_hmac uintDecode_bytes rfc_inner_c910737 rfc_outer_c910737)

lemma rfc_token_c910737_6:
  "HOTP_generate node_sha1 rfc_secret (Some ''SHA1'') (Some 6) (Some 910737) = Inr ''911617''"
  by (simp add: HOTP_generate_eq [OF rfc_hmac_c910737] truncate_digest_value padStart_def
      decimal.simps digit_char_def)

lemma rfc_inner_c910738: "fips_sha1 (rfc_ipad @ [0, 0, 0, 0, 0, 13, 229, 146]) = [19, 89, 147, 115, 113, 62, 151, 128, 65, 249, 33, 48, 185, 217, 127, 20, 238, 158, 74, 108]"
  by (simp add: rfc_ipad_def rfc_secret_def sha1_eval)

lemma rfc_outer_c910738: "fips_sha1 (rfc_opad @ [19, 89, 147, 115, 113, 62, 151, 128, 65, 249, 33, 48, 185, 217, 127, 20, 238, 158, 74, 108]) = [175, 71, 124, 58, 151, 18, 82, 176, 0, 237, 103, 139, 35, 224, 113, 65, 61, 70, 217, 12]"
  by (simp add: rfc_opad_def rfc_secret_def sha1_eval)

lemma rfc_hmac_c910738:
  "hmacDigest node_sha1 ''SHA1'' (secret_bytes rfc_secret) (uintDecode 910738) = Inr [175, 71, 124, 58, 151, 18, 82, 176, 0, 237, 103, 139, 35, 224, 113, 65, 61, 70, 217, 12]"
  by (simp add: rfc_hmac uintDecode_bytes rfc_inner_c910738 rfc_outer_c910738)

lemma rfc_token_c910738_6:
  "HOTP_generate node_sha1 rfc_secret (Some ''SHA1'') (Some 6) (Some 910738) = Inr ''911617''"
  by (simp add: HOTP_generate_eq [OF rfc_hmac_c910738] truncate_digest_value padStart_def
      decimal.simps digit_char_def)

lemma rfc_inner_c2: "fips_sha1 (rfc_ipad @ [0, 0, 0, 0, 0, 0, 0, 2]) = [222, 4, 19, 87, 252, 175, 249, 145, 131, 79, 99, 78, 93, 47, 209, 61, 129, 25, 100, 11]"
  by (simp add: rfc_ipad_def rfc_secret_def sha1_eval)

lemma rfc_outer_c2: "fips_sha1 (rfc_opad @ [222, 4, 19, 87, 252, 175, 249, 145, 131, 79, 99, 78, 93, 47, 209, 61, 129, 25, 100, 11]) = [11, 172, 183, 250, 8, 47, 239, 48, 120, 34, 17, 147, 139, 193, 197, 231, 4, 22, 255, 68]"
  by (simp add: rfc_opad_def rfc_secret_def sha1_eval)

lemma rfc_hmac_c2:
  "hmacDigest node_sha1 ''SHA1'' (secret_bytes rfc_secret) (uintDecode 2) = Inr [11, 172, 183, 250, 8, 47, 239, 48, 120, 34, 17, 147, 139, 193, 197, 231, 4, 22, 255, 68]"
  by (simp add: rfc_hmac uintDecode_bytes rfc_inner_c2 rfc_outer_c2)

lemma rfc_token_c2_6:
  "HOTP_generate node_sha1 rfc_secret (Some ''SHA1'') (Some 6) (Some 2) = Inr ''359152''"
  by (simp add: HOTP_generate_eq [OF rfc_hmac_c2] truncate_digest_value padStart_def
      decimal.simps digit_char_def)

theorem hmacDigest_construction_witness:
  "hmacDigest node_sha1 ''SHA384'' (secret_bytes rfc_secret) (uintDecode 0) =
     Inl (UnsupportedHash ''SHA384'') \<and>
   toLowerCase ''SHA1'' \<in> {''sha1'', ''sha256'', ''sha512''} \<and>
   (\<forall>m. hash node_sha1 ''SHA1'' m = Inr (fips_sha1 m)) \<and>
   (\<forall>m. length (fips_sha1 m) \<le> 64) \<and>
   hmacDigest node_sha1 ''SHA1'' (secret_bytes rfc_secret) (uintDecode 0) =
     Inr (fips_sha1 (rfc_opad @ fips_sha1 (rfc_ipad @ uintDecode 0))) \<and>
   fips_sha1 (rfc_opad @ fips_sha1 (rfc_ipad @ uintDecode 0)) =
     [204, 147, 207, 24, 80, 141, 148, 147, 76, 100, 182, 93, 139, 167, 102, 127, 183, 205,
      228, 176]"
proof -
  have unsupported: "toLowerCase ''SHA384'' \<notin> {''sha1'', ''sha256'', ''sha512''}"
    by (simp add: toLowerCase_def lower_table_def)
  have supported: "toLowerCase ''SHA1'' \<in> {''sha1'', ''sha256'', ''sha512''}"
    by (simp add: toLowerCase_SHA1)
  have total: "\<forall>m. hash node_sha1 ''SHA1'' m = Inr (fips_sha1 m)"
    by (simp add: hash_node_sha1)
  have short: "\<forall>m. length (fips_sha1 m) \<le> (if toLowerCase ''SHA1'' = ''sha512'' then 128 else 64)"
    by (simp add: toLowerCase_SHA1 length_fips_sha1)
  have "hmacDigest node_sha1 ''SHA384'' (secret_bytes rfc_secret) (uintDecode 0) =
          Inl (UnsupportedHash ''SHA384'')"
    using hmacDigest_construction [of "''SHA384''" node_sha1 "secret_bytes rfc_secret"
        "uintDecode 0" fips_sha1] unsupported by blast
  moreover have "hmacDigest node_sha1 ''SHA1'' (secret_bytes rfc_secret) (uintDecode 0) =
          Inr (fips_sha1 (rfc_opad @ fips_sha1 (rfc_ipad @ uintDecode 0)))"
    using hmacDigest_construction [of "''SHA1''" node_sha1 "secret_bytes rfc_secret"
        "uintDecode 0" fips_sha1] supported total short
    by (simp add: toLowerCase_SHA1 rfc_ipad_def rfc_opad_def rfc_secret_def)
  moreover have "fips_sha1 (rfc_opad @ fips_sha1 (rfc_ipad @ uintDecode 0)) =
     [204, 147, 207, 24, 80, 141, 148, 147, 76, 100, 182, 93, 139, 167, 102, 127, 183, 205,
      228, 176]"
    by (simp add: uintDecode_bytes rfc_inner_c0 rfc_outer_c0)
  ultimately show ?thesis
    using supported total by (simp add: length_fips_sha1)
qed

theorem hmacDigest_rejects_canonical_names:
  "canonicalizeAlgorithm ''sha-384'' = Inr ''SHA384'' \<and>
   canonicalizeAlgorithm ''sha3-512'' = Inr ''SHA3-512'' \<and>
   hmacDigest node_sha1 ''SHA384'' (secret_bytes rfc_secret) (uintDecode 0) =
     Inl (UnsupportedHash ''SHA384'') \<and>
   hmacDigest node_sha1 ''SHA3-512'' (secret_bytes rfc_secret) (uintDecode 0) =
     Inl (UnsupportedHash ''SHA3-512'')"
  by (simp add: canonicalizeAlgorithm_def toUpperCase_def upper_table_def startsWith_def
      hmacDigest_def getHashFunction_def toLowerCase_def lower_table_def)

section \<open>Properties of the rounding\<close>

text \<open>
  The exponent is the right one; an integer up to \<open>2 ^ 53\<close> in magnitude is a double;
  rounding never falls below such an integer that lies below the argument, and it
  raises a positive number by its \<open>2 ^ 53\<close>th part at most.
\<close>

lemma bit_length_bounds:
  "0 < n \<Longrightarrow> \<exists>k. bit_length n = Suc k \<and> 2 ^ k \<le> n \<and> n < 2 ^ Suc k"
proof (induction n rule: bit_length.induct)
  case (1 n)
  have b: "bit_length n = Suc (bit_length (n div 2))"
    using 1(2) by (simp add: bit_length.simps [of n])
  show ?case
  proof (cases "n = 1")
    case True
    then show ?thesis
      by (simp add: bit_length.simps [of 1] bit_length.simps [of 0])
  next
    case False
    then have h: "0 < n div 2" using 1(2) by simp
    then obtain k where k: "bit_length (n div 2) = Suc k" "2 ^ k \<le> n div 2" "n div 2 < 2 ^ Suc k"
      using 1(1) 1(2) by auto
    have "2 ^ Suc k \<le> n" "n < 2 ^ Suc (Suc k)"
      using k(2,3) by simp_all
    then show ?thesis
      using b k(1) by simp
  qed
qed

lemma real_power_le:
  fixes n :: int
  assumes "2 ^ k \<le> n"
  shows "(2 :: real) ^ k \<le> of_int n"
proof -
  have "real_of_int (2 ^ k) \<le> real_of_int n"
    using assms by (simp only: of_int_le_iff)
  then show ?thesis by simp
qed

lemma real_power_gt:
  fixes n :: int
  assumes "n < 2 ^ k"
  shows "of_int n + 1 \<le> (2 :: real) ^ k"
proof -
  have "n + 1 \<le> 2 ^ k"
    using assms by simp
  then have "real_of_int (n + 1) \<le> real_of_int (2 ^ k)"
    by (simp only: of_int_le_iff)
  then show ?thesis by simp
qed

lemma binade_bounds:
  assumes "x \<noteq> 0"
  shows "2 powi binade x \<le> \<bar>x\<bar>" and "\<bar>x\<bar> < 2 powi (binade x + 1)"
proof -
  have "2 powi binade x \<le> \<bar>x\<bar> \<and> \<bar>x\<bar> < 2 powi (binade x + 1)"
  proof (cases "1 \<le> \<bar>x\<bar>")
    case True
    define n where "n = \<lfloor>\<bar>x\<bar>\<rfloor>"
    have n0: "0 < n"
      using True by (simp add: n_def)
    have n1: "of_int n \<le> \<bar>x\<bar>" and n2: "\<bar>x\<bar> < of_int n + 1"
      unfolding n_def by linarith+
    obtain k where k: "bit_length n = Suc k" "2 ^ k \<le> n" "n < 2 ^ Suc k"
      using bit_length_bounds [OF n0] by blast
    have "binade x = int (Suc k) - 1"
      using True k(1) by (simp add: binade_def n_def)
    then have b: "binade x = int k" "binade x + 1 = int (Suc k)"
      by simp_all
    have r3: "(2 :: real) ^ k \<le> of_int n"
      using k(2) by (rule real_power_le)
    have r4: "of_int n + 1 \<le> (2 :: real) ^ Suc k"
      using k(3) by (rule real_power_gt)
    have p1: "(2 :: real) powi binade x = 2 ^ k"
      by (simp only: b(1) power_int_of_nat)
    have p2: "(2 :: real) powi (binade x + 1) = 2 ^ Suc k"
      by (simp only: b(2) power_int_of_nat)
    show ?thesis
      unfolding p1 p2 using r3 r4 n1 n2 by (intro conjI; linarith)
  next
    case False
    define y where "y = 1 / \<bar>x\<bar>"
    define n where "n = \<lceil>y\<rceil> - 1"
    have x0: "0 < \<bar>x\<bar>" "\<bar>x\<bar> < 1"
      using False assms by simp_all
    then have y1: "1 < y"
      by (simp add: y_def)
    have xy: "\<bar>x\<bar> = 1 / y"
      by (simp add: y_def)
    have "1 < \<lceil>y\<rceil>"
      using y1 by (simp add: less_ceiling_iff)
    then have n0: "0 < n"
      by (simp add: n_def)
    have n1: "of_int n < y" and n2: "y \<le> of_int n + 1"
      unfolding n_def by linarith+
    obtain k where k: "bit_length n = Suc k" "2 ^ k \<le> n" "n < 2 ^ Suc k"
      using bit_length_bounds [OF n0] by blast
    have "binade x = - int (Suc k)"
      using False k(1) by (simp add: binade_def n_def y_def)
    then have b: "binade x = - int (Suc k)" "binade x + 1 = - int k"
      by simp_all
    have "(2 :: real) ^ k \<le> of_int n"
      using k(2) by (rule real_power_le)
    then have lo: "(2 :: real) ^ k < y"
      using n1 by linarith
    have "of_int n + 1 \<le> (2 :: real) ^ Suc k"
      using k(3) by (rule real_power_gt)
    then have hi: "y \<le> (2 :: real) ^ Suc k"
      using n2 by linarith
    have p: "(0 :: real) < 2 ^ k" "(0 :: real) < 2 ^ Suc k"
      by simp_all
    have "1 / 2 ^ Suc k \<le> 1 / y"
      using hi y1 by (intro divide_left_mono) simp_all
    moreover have "1 / y < 1 / (2 :: real) ^ k"
      using lo p(1) y1 by (intro divide_strict_left_mono) simp_all
    moreover have p1: "(2 :: real) powi binade x = 1 / 2 ^ Suc k"
      by (simp only: b(1) power_int_minus_divide power_int_of_nat)
    moreover have p2: "(2 :: real) powi (binade x + 1) = 1 / 2 ^ k"
      by (simp only: b(2) power_int_minus_divide power_int_of_nat)
    ultimately show ?thesis
      unfolding xy by (intro conjI; linarith)
  qed
  then show "2 powi binade x \<le> \<bar>x\<bar>" and "\<bar>x\<bar> < 2 powi (binade x + 1)"
    by simp_all
qed

lemma binade_unique:
  assumes "2 powi e \<le> \<bar>x\<bar>" "\<bar>x\<bar> < 2 powi (e + 1)"
  shows "binade x = e"
proof -
  have p: "(0 :: real) < 2 powi e"
    by simp
  have x: "x \<noteq> 0"
  proof
    assume "x = 0"
    then have "2 powi e \<le> (0 :: real)"
      using assms(1) by simp
    then show False using p by linarith
  qed
  note b = binade_bounds [OF x]
  have "e < binade x + 1"
  proof (rule ccontr)
    assume "\<not> e < binade x + 1"
    then have "binade x + 1 \<le> e" by simp
    then have "(2 :: real) powi (binade x + 1) \<le> 2 powi e"
      by (rule power_int_increasing) simp
    then show False using assms(1) b(2) by linarith
  qed
  moreover have "binade x < e + 1"
  proof (rule ccontr)
    assume "\<not> binade x < e + 1"
    then have "e + 1 \<le> binade x" by simp
    then have "(2 :: real) powi (e + 1) \<le> 2 powi binade x"
      by (rule power_int_increasing) simp
    then show False using assms(2) b(1) by linarith
  qed
  ultimately show ?thesis by simp
qed

lemma round_even_floor: "\<lfloor>z\<rfloor> \<le> round_even z"
  by (simp add: round_even_def)

lemma round_even_lower: "of_int m \<le> z \<Longrightarrow> m \<le> round_even z"
  using round_even_floor [of z] by (simp add: le_floor_iff [symmetric])

lemma round_even_upper: "of_int (round_even z) \<le> z + 1 / 2"
proof (cases "z - of_int \<lfloor>z\<rfloor> < 1 / 2")
  case True
  then have "round_even z = \<lfloor>z\<rfloor>"
    by (simp add: round_even_def)
  moreover have "of_int \<lfloor>z\<rfloor> \<le> z"
    by simp
  ultimately show ?thesis
    by linarith
next
  case False
  have "round_even z \<le> \<lfloor>z\<rfloor> + 1"
    by (simp add: round_even_def)
  then have "real_of_int (round_even z) \<le> real_of_int (\<lfloor>z\<rfloor> + 1)"
    by (simp only: of_int_le_iff)
  then show ?thesis
    using False by simp
qed

lemma round_even_of_int: "round_even (of_int n) = n"
  by (simp add: round_even_def)

lemma round_even_near:
  assumes "of_int m - 1 / 2 < z" "z < of_int m + 1 / 2"
  shows "round_even z = m"
proof (cases "of_int m \<le> z")
  case True
  then have "\<lfloor>z\<rfloor> = m"
    using assms(2) by (intro floor_unique) simp_all
  then show ?thesis
    using assms(2) by (simp add: round_even_def)
next
  case False
  then have "\<lfloor>z\<rfloor> = m - 1"
    using assms(1) by (intro floor_unique) simp_all
  then show ?thesis
    using assms(1) by (simp add: round_even_def)
qed

lemma round_even_tie:
  assumes "z = of_int m + 1 / 2"
  shows "round_even z = (if even m then m else m + 1)"
proof -
  have "\<lfloor>z\<rfloor> = m"
    unfolding assms by (intro floor_unique) simp_all
  then show ?thesis
    by (simp add: round_even_def assms)
qed

lemma to_double_at:
  assumes "2 powi (e + 52) \<le> \<bar>x\<bar>" "\<bar>x\<bar> < 2 powi (e + 53)"
  shows "to_double x = of_int (round_even (x / 2 powi e)) * 2 powi e"
proof -
  have "\<bar>x\<bar> < 2 powi (e + 52 + 1)"
    using assms(2) by (simp add: add.commute add.left_commute)
  then have b: "binade x = e + 52"
    using assms(1) by (intro binade_unique)
  have p: "(0 :: real) < 2 powi (e + 52)"
    by simp
  have "x \<noteq> 0"
  proof
    assume "x = 0"
    then have "2 powi (e + 52) \<le> (0 :: real)"
      using assms(1) by simp
    then show False using p by linarith
  qed
  then show ?thesis
    by (simp add: to_double_def b)
qed

lemma power_int_nonpos:
  assumes "e \<le> 0"
  shows "(2 :: real) powi e = 1 / 2 ^ nat (- e)"
proof -
  have "e = - int (nat (- e))"
    using assms by simp
  then have "(2 :: real) powi e = 2 powi (- int (nat (- e)))"
    by simp
  then show ?thesis
    by (simp only: power_int_minus_divide power_int_of_nat)
qed

lemma to_double_exact:
  assumes "\<bar>N\<bar> \<le> 2 ^ 53"
  shows "to_double (of_int N) = of_int N"
proof (cases "N = 0")
  case True
  then show ?thesis by (simp add: to_double_def)
next
  case False
  define x :: real where "x = of_int N"
  define e where "e = binade x - 52"
  have x0: "x \<noteq> 0"
    using False by (simp add: x_def)
  have xb: "\<bar>x\<bar> \<le> 2 ^ 53"
  proof -
    have "real_of_int \<bar>N\<bar> \<le> real_of_int (2 ^ 53)"
      using assms by (simp only: of_int_le_iff)
    then show ?thesis by (simp add: x_def)
  qed
  note b = binade_bounds [OF x0]
  have td: "to_double x = of_int (round_even (x / 2 powi e)) * 2 powi e"
    using x0 by (simp add: to_double_def e_def)
  have "e \<le> 1"
  proof (rule ccontr)
    assume "\<not> e \<le> 1"
    then have "54 \<le> binade x" by (simp add: e_def)
    then have "(2 :: real) powi 54 \<le> 2 powi binade x"
      by (rule power_int_increasing) simp
    then show False using b(1) xb by simp
  qed
  then consider "e \<le> 0" | "e = 1" by linarith
  then have "\<exists>M. x / 2 powi e = of_int M"
  proof cases
    case 1
    then have "(2 :: real) powi e = 1 / 2 ^ nat (- e)"
      by (rule power_int_nonpos)
    then have "x / 2 powi e = of_int (N * 2 ^ nat (- e))"
      by (simp add: x_def)
    then show ?thesis by blast
  next
    case 2
    then have "binade x = 53" by (simp add: e_def)
    then have "2 ^ 53 \<le> \<bar>x\<bar>"
      using b(1) by simp
    then have "\<bar>x\<bar> = 2 ^ 53"
      using xb by simp
    then have "x = 2 ^ 53 \<or> x = - (2 ^ 53)"
      by (simp add: abs_if split: if_splits)
    then have "x / 2 powi e = of_int (2 ^ 52) \<or> x / 2 powi e = of_int (- (2 ^ 52))"
      using 2 by auto
    then show ?thesis by blast
  qed
  then obtain M where M: "x / 2 powi e = of_int M" by blast
  have "to_double x = x / 2 powi e * 2 powi e"
    by (simp only: td M round_even_of_int)
  then show ?thesis
    by (simp add: x_def)
qed

lemma to_double_lower:
  assumes "0 \<le> N" "N \<le> 2 ^ 53" "of_int N \<le> x"
  shows "of_int N \<le> to_double x"
proof (cases "x = 0")
  case True
  then show ?thesis using assms by (simp add: to_double_def)
next
  case False
  define e where "e = binade x - 52"
  define s :: real where "s = 2 powi e"
  have x0: "0 < x"
    using assms(1,3) False by simp
  have s0: "0 < s"
    by (simp add: s_def)
  note b = binade_bounds [OF False]
  have td: "to_double x = of_int (round_even (x / s)) * s"
    using False by (simp add: to_double_def e_def s_def)
  show ?thesis
  proof (cases "e \<le> 0")
    case True
    then have "s = 1 / 2 ^ nat (- e)"
      unfolding s_def by (rule power_int_nonpos)
    then have sN: "of_int N / s = of_int (N * 2 ^ nat (- e))"
      by simp
    have "of_int N / s \<le> x / s"
      using assms(3) s0 by (simp add: divide_right_mono)
    then have "N * 2 ^ nat (- e) \<le> round_even (x / s)"
      unfolding sN by (rule round_even_lower)
    then have "real_of_int (N * 2 ^ nat (- e)) \<le> of_int (round_even (x / s))"
      by (simp only: of_int_le_iff)
    then have "of_int N / s * s \<le> of_int (round_even (x / s)) * s"
      unfolding sN using s0 by (simp only: mult_le_cancel_right_pos)
    then show ?thesis
      using s0 by (simp add: td)
  next
    case False
    then have e1: "1 \<le> e" by simp
    have "(2 :: real) powi 1 \<le> 2 powi e"
      using e1 by (rule power_int_increasing) simp
    then have s2: "2 \<le> s"
      by (simp add: s_def)
    have "(2 :: real) powi (52 + e) = 2 powi 52 * 2 powi e"
      by (rule power_int_add) simp
    moreover have "52 + e = binade x"
      by (simp add: e_def)
    ultimately have "(2 :: real) powi binade x = 2 powi 52 * 2 powi e"
      by simp
    then have "2 ^ 52 * s \<le> x"
      using b(1) x0 by (simp add: s_def)
    then have "of_int (2 ^ 52) \<le> x / s"
      using s0 by (simp add: le_divide_eq)
    then have "2 ^ 52 \<le> round_even (x / s)"
      by (rule round_even_lower)
    then have "real_of_int (2 ^ 52) \<le> of_int (round_even (x / s))"
      by (simp only: of_int_le_iff)
    then have "2 ^ 52 * 2 \<le> of_int (round_even (x / s)) * s"
      using s2 by (intro mult_mono) simp_all
    moreover have "real_of_int N \<le> real_of_int (2 ^ 53)"
      using assms(2) by (simp only: of_int_le_iff)
    ultimately show ?thesis
      by (simp add: td)
  qed
qed

lemma to_double_upper:
  assumes "0 < x"
  shows "to_double x \<le> x + x / 2 ^ 53"
proof -
  define e where "e = binade x - 52"
  define s :: real where "s = 2 powi e"
  have x0: "x \<noteq> 0"
    using assms by simp
  have s0: "0 < s"
    by (simp add: s_def)
  note b = binade_bounds [OF x0]
  have td: "to_double x = of_int (round_even (x / s)) * s"
    using x0 by (simp add: to_double_def e_def s_def)
  have "(2 :: real) powi (52 + e) = 2 powi 52 * 2 powi e"
    by (rule power_int_add) simp
  moreover have "52 + e = binade x"
    by (simp add: e_def)
  ultimately have "(2 :: real) powi binade x = 2 powi 52 * 2 powi e"
    by simp
  then have sx: "2 ^ 52 * s \<le> x"
    using b(1) assms by (simp add: s_def)
  have "of_int (round_even (x / s)) * s \<le> (x / s + 1 / 2) * s"
    using round_even_upper [of "x / s"] s0 by (simp only: mult_le_cancel_right_pos)
  also have "\<dots> = x + s / 2"
    using s0 by (simp add: algebra_simps)
  also have "\<dots> \<le> x + x / 2 ^ 53"
    using sx by simp
  finally show ?thesis
    by (simp only: td)
qed

lemma number_exact: "\<bar>x\<bar> \<le> 2 ^ 53 \<Longrightarrow> number x = x"
  by (simp add: number_def to_double_exact)

lemma number_stuck: "number (9007199254740992 + 1) = 9007199254740992"
proof -
  have "to_double 9007199254740993 = of_int (round_even (9007199254740993 / 2 powi 1)) * 2 powi 1"
    by (rule to_double_at) simp_all
  moreover have "round_even (9007199254740993 / 2 powi 1) =
      (if even (4503599627370496 :: int) then 4503599627370496 else 4503599627370496 + 1)"
    by (rule round_even_tie) simp
  ultimately have "to_double 9007199254740993 = 9007199254740992"
    by simp
  then show ?thesis
    by (simp add: number_def)
qed

lemma to_double_zero: "to_double 0 = 0"
  by (simp add: to_double_def)

lemma two_divisions_floor:
  fixes t p :: int
  assumes t0: "0 \<le> t" and t3: "3 * t < 2 ^ 53" and p1: "1 \<le> p"
  shows "\<lfloor>to_double (to_double (of_int t / 1000) / of_int p)\<rfloor> = t div (1000 * p)"
proof -
  define K where "K = t div (1000 * p)"
  define x :: real where "x = of_int t / 1000"
  define a where "a = to_double x"
  define q where "q = a / of_int p"
  define y where "y = to_double q"
  define D :: real where "D = 1000 * of_int p"
  have p0: "(0 :: real) < of_int p" and D0: "0 < D"
    using p1 by (simp_all add: D_def)
  have m: "0 < 1000 * p"
    using p1 by simp
  have "t = 1000 * p * K + t mod (1000 * p)"
    by (simp add: K_def)
  moreover have "0 \<le> t mod (1000 * p)" "t mod (1000 * p) < 1000 * p"
    using m by simp_all
  ultimately have Kt: "K * p * 1000 \<le> t" "t + 1 \<le> (K + 1) * p * 1000"
    by (simp_all add: algebra_simps)
  have K0: "0 \<le> K"
    using t0 m by (simp add: K_def pos_imp_zdiv_nonneg_iff)
  have Kp0: "0 \<le> K * p"
    using K0 p1 by simp
  have "K * p \<le> K * p * 1000"
    using Kp0 by simp
  then have Kp: "K * p \<le> 2 ^ 53"
    using Kt(1) t3 t0 by linarith
  have "K * 1 \<le> K * p"
    using K0 p1 by (intro mult_left_mono) simp_all
  then have Kb: "K \<le> 2 ^ 53"
    using Kp by simp
  have "real_of_int (K * p * 1000) \<le> real_of_int t"
    using Kt(1) by (simp only: of_int_le_iff)
  then have "real_of_int (K * p) \<le> x"
    by (simp add: x_def)
  then have a_lo: "real_of_int (K * p) \<le> a"
    unfolding a_def by (rule to_double_lower [OF Kp0 Kp])
  then have "real_of_int K * of_int p \<le> a"
    by simp
  then have q_lo: "real_of_int K \<le> q"
    using p0 by (simp add: q_def le_divide_eq)
  then have y_lo: "real_of_int K \<le> y"
    unfolding y_def by (rule to_double_lower [OF K0 Kb])
  have y_hi: "y < real_of_int K + 1"
  proof (cases "0 < q")
    case False
    then have "q = 0"
      using q_lo K0 by simp
    then show ?thesis
      using K0 by (simp add: y_def to_double_zero)
  next
    case True
    then have a0: "0 < a"
      using p0 by (simp add: q_def zero_less_divide_iff)
    have x0: "0 < x"
    proof (rule ccontr)
      assume "\<not> 0 < x"
      then have "x = 0"
        using t0 by (simp add: x_def)
      then show False
        using a0 by (simp add: a_def to_double_zero)
    qed
    define u :: real where "u = 1 / 2 ^ 53"
    have u: "0 < u" "(1 + u) * (1 + u) \<le> 1 + 3 * u"
      by (simp_all add: u_def)
    have "a \<le> x + x / 2 ^ 53"
      unfolding a_def by (rule to_double_upper [OF x0])
    then have a_hi: "a \<le> x * (1 + u)"
      by (simp add: u_def algebra_simps)
    have "y \<le> q + q / 2 ^ 53"
      unfolding y_def by (rule to_double_upper [OF True])
    then have "y \<le> q * (1 + u)"
      by (simp add: u_def algebra_simps)
    then have "y * of_int p \<le> a * (1 + u)"
      using p0 by (simp add: q_def field_simps)
    also have "\<dots> \<le> x * (1 + u) * (1 + u)"
      using a_hi u(1) by (intro mult_right_mono) simp_all
    also have "\<dots> = x * ((1 + u) * (1 + u))"
      by simp
    also have "\<dots> \<le> x * (1 + 3 * u)"
      using x0 u(2) by (intro mult_left_mono) simp_all
    finally have "y * of_int p * 1000 \<le> x * (1 + 3 * u) * 1000"
      by simp
    then have "y * D \<le> of_int t + 3 * of_int t * u"
      by (simp add: D_def x_def algebra_simps)
    moreover have "real_of_int (3 * t) < real_of_int (2 ^ 53)"
      using t3 by (simp only: of_int_less_iff)
    then have "3 * real_of_int t * u < 1"
      by (simp add: u_def)
    moreover have "real_of_int (t + 1) \<le> real_of_int ((K + 1) * p * 1000)"
      using Kt(2) by (simp only: of_int_le_iff)
    then have "real_of_int t + 1 \<le> (real_of_int K + 1) * D"
      by (simp add: D_def algebra_simps)
    ultimately have "y * D < (real_of_int K + 1) * D"
      by linarith
    then show ?thesis
      using D0 by (simp only: mult_less_cancel_right_pos)
  qed
  have "\<lfloor>y\<rfloor> = K"
    using y_lo y_hi by (intro floor_unique) simp_all
  then show ?thesis
    by (simp add: y_def q_def a_def x_def K_def)
qed

lemma to_double_far_timestamp:
  "to_double (144115188075856992 / 1000) = 144115188075857"
  "to_double (144115188075857 / 1) = 144115188075857"
proof -
  have "to_double (144115188075856992 / 1000) =
      of_int (round_even (144115188075856992 / 1000 / 2 powi (- 5))) * 2 powi (- 5)"
    by (rule to_double_at) simp_all
  moreover have "round_even (144115188075856992 / 1000 / 2 powi (- 5)) = 4611686018427424"
    by (rule round_even_near) simp_all
  ultimately show "to_double (144115188075856992 / 1000) = 144115188075857"
    by simp
  have "to_double (real_of_int 144115188075857) = real_of_int 144115188075857"
    by (rule to_double_exact) simp
  then show "to_double (144115188075857 / 1) = 144115188075857"
    by simp
qed

lemma number_jump: "number (9007199254740994 + 1) = 9007199254740996"
proof -
  have "to_double 9007199254740995 = of_int (round_even (9007199254740995 / 2 powi 1)) * 2 powi 1"
    by (rule to_double_at) simp_all
  moreover have "round_even (9007199254740995 / 2 powi 1) =
      (if even (4503599627370497 :: int) then 4503599627370497 else 4503599627370497 + 1)"
    by (rule round_even_tie) simp
  ultimately have "to_double 9007199254740995 = 9007199254740996"
    by simp
  then show ?thesis
    by (simp add: number_def)
qed

lemma number_far_timestamp: "number 144115188075856992 = 144115188075856992"
proof -
  have "to_double 144115188075856992 =
      of_int (round_even (144115188075856992 / 2 powi 5)) * 2 powi 5"
    by (rule to_double_at) simp_all
  moreover have "round_even (144115188075856992 / 2 powi 5) = round_even (of_int 4503599627370531)"
    by simp
  ultimately have "to_double 144115188075856992 = 144115188075856992"
    by (simp only: round_even_of_int) simp
  then show ?thesis
    by (simp add: number_def)
qed

lemma two_divisions_far_timestamp:
  "\<lfloor>to_double (to_double (real_of_int 144115188075856992 / 1000) / real_of_int 1)\<rfloor> =
     144115188075857"
proof -
  have "real_of_int 144115188075856992 / 1000 = 144115188075856992 / 1000"
    by simp
  then have a: "to_double (real_of_int 144115188075856992 / 1000) = 144115188075857"
    by (simp only: to_double_far_timestamp(1))
  have "(144115188075857 :: real) / real_of_int 1 = 144115188075857 / 1"
    by simp
  then have b: "to_double (144115188075857 / real_of_int 1) = 144115188075857"
    by (simp only: to_double_far_timestamp(2))
  show ?thesis
    unfolding a b by simp
qed

section \<open>HOTP validation\<close>

lemma of_char_less_256: "(of_char c :: nat) < 256"
proof -
  have "(of_char c :: nat) mod 256 < 256" by (rule mod_less_divisor) simp
  then show ?thesis by (simp only: of_char_mod_256)
qed

lemma code_unit_eq:
  "(of_nat (of_char x) XOR of_nat (of_char y) :: 32 word) = 0 \<longleftrightarrow> x = y"
proof -
  have "(of_nat (of_char x) :: 32 word) = of_nat (of_char y) \<longleftrightarrow> x = y"
  proof -
    have "(of_char c :: nat) mod 4294967296 = of_char c" for c
      by (rule mod_less) (use of_char_less_256 [of c] in linarith)
    then show ?thesis
      by (simp add: word_of_nat_eq_iff take_bit_eq_mod)
  qed
  moreover have "a XOR b = 0 \<longleftrightarrow> a = b" for a b :: "32 word"
    by (auto simp: bit_eq_iff bit_xor_iff)
  ultimately show ?thesis by simp
qed

lemma timingSafeEqual_for_zero:
  "length a = length b \<Longrightarrow> timingSafeEqual_for a b out = 0 \<longleftrightarrow> out = 0 \<and> a = b"
proof (induction a b arbitrary: out rule: list_induct2)
  case Nil
  then show ?case by simp
next
  case (Cons x xs y ys)
  then show ?case
    using code_unit_eq [of x y] by (auto simp: or_eq_0_iff)
qed

lemma timingSafeEqual_eq:
  "length a = length b \<Longrightarrow> timingSafeEqual a b = Inr (a = b)"
  by (simp add: timingSafeEqual_def timingSafeEqual_for_zero)

lemma HOTP_generate_Inr:
  assumes "HOTP_generate env secret algorithm (Some digits) (Some counter) = Inr token"
    and "0 < digits"
  shows "length token = digits"
proof -
  obtain digest where
    "hmacDigest env (default_to ''SHA1'' algorithm) (secret_bytes secret) (uintDecode counter) = Inr digest"
    using assms(1) by (auto simp: HOTP_generate_def default_to_def split: sum.splits)
  then have "\<exists>t. HOTP_generate env secret (Some (default_to ''SHA1'' algorithm)) (Some digits)
                 (Some counter) = Inr t \<and> length t = digits"
    using HOTP_generate_digits [OF assms(2)] by blast
  moreover have "HOTP_generate env secret (Some (default_to ''SHA1'' algorithm)) (Some digits)
                   (Some counter) =
                 HOTP_generate env secret algorithm (Some digits) (Some counter)"
    by (simp add: HOTP_generate_def default_to_def)
  ultimately show ?thesis
    using assms(1) by simp
qed

text \<open>
  Where the counter and the window are such that no sum of the loop leaves the exactly
  representable integers, the additions of the loop are exact.
\<close>

lemma number_range:
  assumes "\<bar>counter\<bar> + \<bar>window\<bar> < 2 ^ 53"
  shows "number (counter + window) = counter + window"
    and "number (counter - window) = counter - window"
    and "counter - window \<le> i \<Longrightarrow> i \<le> counter + window \<Longrightarrow> number (i + 1) = i + 1"
    and "counter - window \<le> i \<Longrightarrow> i \<le> counter + window \<Longrightarrow> number (i - counter) = i - counter"
proof -
  show "number (counter + window) = counter + window"
    by (rule number_exact) (use assms in linarith)
  show "number (counter - window) = counter - window"
    by (rule number_exact) (use assms in linarith)
  show "number (i + 1) = i + 1" if "counter - window \<le> i" "i \<le> counter + window"
    by (rule number_exact) (use assms that in linarith)
  show "number (i - counter) = i - counter" if "counter - window \<le> i" "i \<le> counter + window"
    by (rule number_exact) (use assms that in linarith)
qed

text \<open>
  The loop from \<open>i\<close> on, when every candidate of the rest of the range is generated
  (\<open>G\<close> names the candidates): it returns; without a match the recorded delta stays,
  otherwise the last match decides.
\<close>

lemma validate_for_scan:
  assumes gen: "\<forall>j. i \<le> j \<and> j \<le> counter + window \<longrightarrow>
                  HOTP_generate env secret algorithm (Some digits) (Some j) = Inr (G j)"
    and digits: "0 < digits" "length token = digits"
    and bound: "\<bar>counter\<bar> + \<bar>window\<bar> < 2 ^ 53"
    and low: "counter - window \<le> i"
  shows "((\<forall>j. i \<le> j \<and> j \<le> counter + window \<longrightarrow> G j \<noteq> token) \<longrightarrow>
            validate_for env token secret algorithm digits counter window i delta =
              Some (Inr delta)) \<and>
         (\<forall>j. i \<le> j \<and> j \<le> counter + window \<and> G j = token \<and>
               (\<forall>k. j < k \<and> k \<le> counter + window \<longrightarrow> G k \<noteq> token) \<longrightarrow>
            validate_for env token secret algorithm digits counter window i delta =
              Some (Inr (Some (j - counter))))"
  using gen low
proof (induction "nat (counter + window + 1 - i)" arbitrary: i delta)
  case 0
  then have "\<not> i \<le> number (counter + window)"
    by (simp add: number_range(1) [OF bound])
  then have "validate_for env token secret algorithm digits counter window i delta =
      Some (Inr delta)"
    by (subst validate_for.simps) simp
  moreover have "\<not> i \<le> counter + window"
    using 0 by simp
  ultimately show ?case
    by auto
next
  case (Suc n)
  then have le: "i \<le> counter + window" by simp
  have low: "counter - window \<le> i"
    by (rule Suc.prems(2))
  have gi: "HOTP_generate env secret algorithm (Some digits) (Some i) = Inr (G i)"
    using Suc.prems(1) le by simp
  then have "length (G i) = length token"
    using HOTP_generate_Inr digits by simp
  then have eq: "timingSafeEqual token (G i) = Inr (token = G i)"
    by (simp add: timingSafeEqual_eq)
  have step: "validate_for env token secret algorithm digits counter window i d =
              validate_for env token secret algorithm digits counter window (i + 1)
                (if token = G i then Some (i - counter) else d)" for d
    using le
    by (subst validate_for.simps)
      (simp add: gi eq number_range(1) [OF bound] number_range(3) [OF bound low le]
        number_range(4) [OF bound low le])
  have n: "n = nat (counter + window + 1 - (i + 1))"
    using Suc.hyps(2) by simp
  have gen': "\<forall>j. i + 1 \<le> j \<and> j \<le> counter + window \<longrightarrow>
                HOTP_generate env secret algorithm (Some digits) (Some j) = Inr (G j)"
    using Suc.prems(1) by simp
  have low': "counter - window \<le> i + 1"
    using low by simp
  note IH = Suc.hyps(1) [OF n gen' low']
  show ?case
  proof (intro conjI allI impI)
    assume none: "\<forall>j. i \<le> j \<and> j \<le> counter + window \<longrightarrow> G j \<noteq> token"
    then have "G i \<noteq> token" using le by simp
    moreover have "\<forall>j. i + 1 \<le> j \<and> j \<le> counter + window \<longrightarrow> G j \<noteq> token"
      using none by simp
    ultimately show "validate_for env token secret algorithm digits counter window i delta =
                     Some (Inr delta)"
      using IH [of delta] by (auto simp: step)
  next
    fix j
    assume j: "i \<le> j \<and> j \<le> counter + window \<and> G j = token \<and>
               (\<forall>k. j < k \<and> k \<le> counter + window \<longrightarrow> G k \<noteq> token)"
    show "validate_for env token secret algorithm digits counter window i delta =
          Some (Inr (Some (j - counter)))"
    proof (cases "j = i")
      case True
      then have "\<forall>k. i + 1 \<le> k \<and> k \<le> counter + window \<longrightarrow> G k \<noteq> token"
        using j by simp
      then show ?thesis
        using IH [of "Some (i - counter)"] j True by (simp add: step)
    next
      case False
      then have "i + 1 \<le> j" using j by simp
      then show ?thesis
        using IH [of "if token = G i then Some (i - counter) else delta"] j
        by (simp add: step)
    qed
  qed
qed



lemma rfc_candidates_generated:
  "\<forall>i. 910737 - 1 \<le> i \<and> i \<le> 910737 + 1 \<longrightarrow>
       HOTP_generate node_sha1 rfc_secret (Some ''SHA1'') (Some 6) (Some i) = Inr (rfc_candidates i)"
proof (intro allI impI)
  fix i :: int
  assume "910737 - 1 \<le> i \<and> i \<le> 910737 + 1"
  then consider "i = 910736" | "i = 910737" | "i = 910738" by linarith
  then show "HOTP_generate node_sha1 rfc_secret (Some ''SHA1'') (Some 6) (Some i) =
             Inr (rfc_candidates i)"
    by cases
      (simp_all add: rfc_candidates_def rfc_token_c910736_6 rfc_token_c910737_6 rfc_token_c910738_6)
qed

lemma rfc_candidates_last:
  "910737 - 1 \<le> (910738 :: int) \<and> (910738 :: int) \<le> 910737 + 1 \<and>
   rfc_candidates 910738 = ''911617'' \<and>
   (\<forall>j. 910738 < j \<and> j \<le> 910737 + 1 \<longrightarrow> rfc_candidates j \<noteq> ''911617'')"
  by (auto simp: rfc_candidates_def)

lemma rfc_candidates_bound: "\<bar>910737 :: int\<bar> + \<bar>1\<bar> < 2 ^ 53"
  by simp



section \<open>Validating a generated token\<close>

lemma HOTP_validate_last_match:
  assumes gen: "\<forall>i. counter - window \<le> i \<and> i \<le> counter + window \<longrightarrow>
                  HOTP_generate env secret algorithm (Some digits) (Some i) = Inr (G i)"
    and pos: "0 < digits" and len: "length token = digits"
    and bound: "\<bar>counter\<bar> + \<bar>window\<bar> < 2 ^ 53"
    and m: "counter - window \<le> m" "m \<le> counter + window" "G m = token"
    and later: "\<forall>j. m < j \<and> j \<le> counter + window \<longrightarrow> G j \<noteq> token"
  shows "HOTP_validate env token secret algorithm (Some digits) (Some counter) (Some window) =
           Some (Inr (Some (m - counter)))"
proof -
  have "HOTP_validate env token secret algorithm (Some digits) (Some counter) (Some window) =
        validate_for env token secret algorithm digits counter window (counter - window) None"
    using len by (simp add: HOTP_validate_def default_to_def number_range(2) [OF bound])
  also have "\<dots> = Some (Inr (Some (m - counter)))"
    using validate_for_scan [OF gen pos len bound, of None, THEN conjunct2, THEN spec, of m]
      m later
    by simp
  finally show ?thesis .
qed

text \<open>
  Claim C4, as the code has it. For integers \<open>c\<close> and \<open>window \<ge> 0\<close> with
  \<open>\<bar>c\<bar> + window < 2 ^ 53\<close> and every candidate of the range generated, validating the
  token generated at counter \<open>c\<close> against \<open>c\<close> returns some \<open>d\<close> with
  \<open>0 \<le> d \<le> window\<close>: the offset of the last counter of \<open>[c, c + window]\<close> whose token
  equals the one of \<open>c\<close>. It is 0 exactly when no later counter of the window generates
  the same token, in particular when \<open>window = 0\<close>.
\<close>

theorem HOTP_validate_own_token:
  assumes "0 \<le> window" and "0 < digits" and bound: "\<bar>counter\<bar> + window < 2 ^ 53"
    and gen: "\<forall>i. counter - window \<le> i \<and> i \<le> counter + window \<longrightarrow>
                  HOTP_generate env secret algorithm (Some digits) (Some i) = Inr (G i)"
  shows "\<exists>d. HOTP_validate env (G counter) secret algorithm (Some digits) (Some counter)
                (Some window) = Some (Inr (Some d)) \<and>
              0 \<le> d \<and> d \<le> window \<and> G (counter + d) = G counter \<and>
              (\<forall>j. counter + d < j \<and> j \<le> counter + window \<longrightarrow> G j \<noteq> G counter) \<and>
              (d = 0 \<longleftrightarrow> (\<forall>j. counter < j \<and> j \<le> counter + window \<longrightarrow> G j \<noteq> G counter))"
proof -
  let ?M = "{j. counter \<le> j \<and> j \<le> counter + window \<and> G j = G counter}"
  have bound': "\<bar>counter\<bar> + \<bar>window\<bar> < 2 ^ 53"
    using bound assms(1) by simp
  have fin: "finite ?M"
    by (rule finite_subset [of _ "{counter..counter + window}"]) auto
  have ne: "counter \<in> ?M"
    using assms(1) by simp
  define m where "m = Max ?M"
  have "?M \<noteq> {}"
    using ne by blast
  then have "m \<in> ?M"
    unfolding m_def using fin by (rule Max_in [rotated])
  then have m: "counter \<le> m" "m \<le> counter + window" "G m = G counter"
    by auto
  have later: "G j \<noteq> G counter" if "m < j" "j \<le> counter + window" for j
  proof
    assume "G j = G counter"
    then have "j \<in> ?M" using that m by simp
    then have "j \<le> m" unfolding m_def using fin by (intro Max_ge)
    then show False using that by simp
  qed
  have "HOTP_generate env secret algorithm (Some digits) (Some counter) = Inr (G counter)"
    using gen assms(1) by simp
  then have len: "length (G counter) = digits"
    using HOTP_generate_Inr assms(2) by blast
  have v: "HOTP_validate env (G counter) secret algorithm (Some digits) (Some counter)
             (Some window) = Some (Inr (Some (m - counter)))"
    using m later assms(1)
    by (intro HOTP_validate_last_match [OF gen assms(2) len bound']) auto
  have zero: "m - counter = 0 \<longleftrightarrow>
              (\<forall>j. counter < j \<and> j \<le> counter + window \<longrightarrow> G j \<noteq> G counter)"
  proof
    assume "m - counter = 0"
    then show "\<forall>j. counter < j \<and> j \<le> counter + window \<longrightarrow> G j \<noteq> G counter"
      using later by simp
  next
    assume "\<forall>j. counter < j \<and> j \<le> counter + window \<longrightarrow> G j \<noteq> G counter"
    then have "\<not> counter < m" using m by blast
    then show "m - counter = 0" using m by simp
  qed
  show ?thesis
  proof (intro exI [of _ "m - counter"] conjI)
    show "HOTP_validate env (G counter) secret algorithm (Some digits) (Some counter)
            (Some window) = Some (Inr (Some (m - counter)))"
      by (rule v)
    show "0 \<le> m - counter" "m - counter \<le> window"
      using m by simp_all
    show "G (counter + (m - counter)) = G counter"
      using m by simp
    show "\<forall>j. counter + (m - counter) < j \<and> j \<le> counter + window \<longrightarrow> G j \<noteq> G counter"
      using later by simp
    show "m - counter = 0 \<longleftrightarrow>
          (\<forall>j. counter < j \<and> j \<le> counter + window \<longrightarrow> G j \<noteq> G counter)"
      by (rule zero)
  qed
qed

text \<open>
  The theorem at counter 1 with window 1, on the RFC 4226 vectors: the candidates of the
  counters 0, 1 and 2 are 755224, 287082 and 359152, and the token of counter 1 validates
  with offset 0.
\<close>

theorem HOTP_validate_own_token_witness:
  "HOTP_generate node_sha1 rfc_secret (Some ''SHA1'') (Some 6) (Some 0) = Inr ''755224'' \<and>
   HOTP_generate node_sha1 rfc_secret (Some ''SHA1'') (Some 6) (Some 1) = Inr ''287082'' \<and>
   HOTP_generate node_sha1 rfc_secret (Some ''SHA1'') (Some 6) (Some 2) = Inr ''359152'' \<and>
   HOTP_validate node_sha1 ''287082'' rfc_secret (Some ''SHA1'') (Some 6) (Some 1) (Some 1) =
     Some (Inr (Some 0))"
proof -
  define G :: "int \<Rightarrow> string" where
    "G = (\<lambda>i. if i = 0 then ''755224'' else if i = 1 then ''287082'' else ''359152'')"
  have gen: "\<forall>i. (1 :: int) - 1 \<le> i \<and> i \<le> 1 + 1 \<longrightarrow>
        HOTP_generate node_sha1 rfc_secret (Some ''SHA1'') (Some 6) (Some i) = Inr (G i)"
  proof (intro allI impI)
    fix i :: int
    assume "1 - 1 \<le> i \<and> i \<le> 1 + 1"
    then consider "i = 0" | "i = 1" | "i = 2" by linarith
    then show "HOTP_generate node_sha1 rfc_secret (Some ''SHA1'') (Some 6) (Some i) = Inr (G i)"
      by cases (simp_all add: G_def rfc_token_c0_6 rfc_token_c1_6 rfc_token_c2_6)
  qed
  have w: "(0 :: int) \<le> 1" and d: "0 < (6 :: nat)" and b: "\<bar>1 :: int\<bar> + 1 < 2 ^ 53"
    by simp_all
  obtain d where d:
    "HOTP_validate node_sha1 (G 1) rfc_secret (Some ''SHA1'') (Some 6) (Some 1) (Some 1) =
       Some (Inr (Some d))"
    "d = 0 \<longleftrightarrow> (\<forall>j. 1 < j \<and> j \<le> 1 + 1 \<longrightarrow> G j \<noteq> G 1)"
    using HOTP_validate_own_token [OF w d b gen] by blast
  have "\<forall>j :: int. 1 < j \<and> j \<le> 1 + 1 \<longrightarrow> G j \<noteq> G 1"
    by (simp add: G_def)
  then have "d = 0"
    using d(2) by simp
  then have "HOTP_validate node_sha1 ''287082'' rfc_secret (Some ''SHA1'') (Some 6) (Some 1)
      (Some 1) = Some (Inr (Some 0))"
    using d(1) by (simp add: G_def)
  then show ?thesis
    by (simp add: rfc_token_c0_6 rfc_token_c1_6 rfc_token_c2_6)
qed

text \<open>
  The claim as it was stated fails where a later counter of the window generates the
  same token: for the RFC secret the counters 910737 and 910738 both give 911617, and
  validation with window 1 answers 1, not 0.
\<close>

theorem HOTP_validate_own_token_later_match:
  "HOTP_generate node_sha1 rfc_secret (Some ''SHA1'') (Some 6) (Some 910737) = Inr ''911617'' \<and>
   HOTP_generate node_sha1 rfc_secret (Some ''SHA1'') (Some 6) (Some 910738) = Inr ''911617'' \<and>
   HOTP_validate node_sha1 ''911617'' rfc_secret (Some ''SHA1'') (Some 6) (Some 910737) (Some 1) =
     Some (Inr (Some 1)) \<and>
   HOTP_validate node_sha1 ''911617'' rfc_secret (Some ''SHA1'') (Some 6) (Some 910737) (Some 1) \<noteq>
     Some (Inr (Some 0))"
proof -
  have "HOTP_validate node_sha1 ''911617'' rfc_secret (Some ''SHA1'') (Some 6) (Some 910737)
          (Some 1) = Some (Inr (Some (910738 - 910737)))"
    using rfc_candidates_last
    by (intro HOTP_validate_last_match [OF rfc_candidates_generated _ _ rfc_candidates_bound])
      simp_all
  then show ?thesis
    by (simp add: rfc_token_c910737_6 rfc_token_c910738_6)
qed

section \<open>TOTP\<close>

lemma TOTP_counter_eq:
  assumes "0 \<le> timestamp" "3 * timestamp < 2 ^ 53" "1 \<le> period"
  shows "TOTP_counter env (Some period) (Some timestamp) = timestamp div (1000 * period)"
  unfolding TOTP_counter_def default_to_def option.case
  by (rule two_divisions_floor [OF assms])

text \<open>
  Claim C9, as the code has it. \<open>TOTP.generate\<close> returns what \<open>HOTP.generate\<close> returns
  at the counter \<open>TOTP.counter\<close> computes, and for an integer period from 1 to \<open>2 ^ 53\<close>
  and an integer timestamp \<open>t\<close> in milliseconds with \<open>0 \<le> t\<close> and \<open>3 * t < 2 ^ 53\<close> that
  counter is the integer \<open>floor (t / (1000 * period))\<close>, exactly: the two rounded
  divisions do not reach the next integer.
\<close>

theorem TOTP_generate_delegates:
  "TOTP_generate env secret algorithm digits (Some period) (Some timestamp) =
     HOTP_generate env secret algorithm digits
       (Some (TOTP_counter env (Some period) (Some timestamp))) \<and>
   (1 \<le> period \<longrightarrow> period \<le> 2 ^ 53 \<longrightarrow> 0 \<le> timestamp \<longrightarrow> 3 * timestamp < 2 ^ 53 \<longrightarrow>
      TOTP_counter env (Some period) (Some timestamp) = timestamp div (1000 * period) \<and>
      real_of_int (TOTP_counter env (Some period) (Some timestamp)) \<le>
        real_of_int timestamp / 1000 / real_of_int period \<and>
      real_of_int timestamp / 1000 / real_of_int period <
        real_of_int (TOTP_counter env (Some period) (Some timestamp)) + 1 \<and>
      TOTP_generate env secret algorithm digits (Some period) (Some timestamp) =
        HOTP_generate env secret algorithm digits (Some (timestamp div (1000 * period))))"
proof -
  have delegate: "TOTP_generate env secret algorithm digits (Some period) (Some timestamp) =
      HOTP_generate env secret algorithm digits
        (Some (TOTP_counter env (Some period) (Some timestamp)))"
    by (simp add: TOTP_generate_def default_to_def)
  have exact: "TOTP_counter env (Some period) (Some timestamp) = timestamp div (1000 * period) \<and>
      real_of_int (TOTP_counter env (Some period) (Some timestamp)) \<le>
        real_of_int timestamp / 1000 / real_of_int period \<and>
      real_of_int timestamp / 1000 / real_of_int period <
        real_of_int (TOTP_counter env (Some period) (Some timestamp)) + 1 \<and>
      TOTP_generate env secret algorithm digits (Some period) (Some timestamp) =
        HOTP_generate env secret algorithm digits (Some (timestamp div (1000 * period)))"
    if "1 \<le> period" "0 \<le> timestamp" "3 * timestamp < 2 ^ 53"
  proof -
    have c: "TOTP_counter env (Some period) (Some timestamp) = timestamp div (1000 * period)"
      using that by (intro TOTP_counter_eq)
    have "real_of_int timestamp / 1000 / real_of_int period =
          real_of_int timestamp / real_of_int (1000 * period)"
      by simp
    then have f: "\<lfloor>real_of_int timestamp / 1000 / real_of_int period\<rfloor> =
        timestamp div (1000 * period)"
      by (simp only: floor_divide_of_int_eq)
    have "real_of_int (timestamp div (1000 * period)) \<le>
        real_of_int timestamp / 1000 / real_of_int period"
      unfolding f [symmetric] by simp
    moreover have "real_of_int timestamp / 1000 / real_of_int period <
        real_of_int (timestamp div (1000 * period)) + 1"
      unfolding f [symmetric] by linarith
    ultimately show ?thesis
      using delegate by (simp only: c)
  qed
  show ?thesis
    using delegate exact by blast
qed

theorem TOTP_generate_delegates_witness:
  "TOTP_counter node_sha1 (Some 30) (Some 59000) = 1 \<and>
   TOTP_generate node_sha1 rfc_secret (Some ''SHA1'') (Some 8) (Some 30) (Some 59000) =
     Inr ''94287082'' \<and>
   TOTP_generate node_sha1 rfc_secret (Some ''SHA1'') (Some 8) None None = Inr ''94287082''"
proof -
  have "TOTP_counter node_sha1 (Some 30) (Some 59000) = 1 \<and>
        TOTP_generate node_sha1 rfc_secret (Some ''SHA1'') (Some 8) (Some 30) (Some 59000) =
          HOTP_generate node_sha1 rfc_secret (Some ''SHA1'') (Some 8) (Some 1)"
    using TOTP_generate_delegates [of node_sha1 rfc_secret "Some ''SHA1''" "Some 8" 30 59000]
    by simp
  moreover have "TOTP_generate node_sha1 rfc_secret (Some ''SHA1'') (Some 8) None None =
        TOTP_generate node_sha1 rfc_secret (Some ''SHA1'') (Some 8) (Some 30) (Some 59000)"
    by (simp add: TOTP_generate_def default_to_def node_sha1_def)
  ultimately show ?thesis
    by (simp add: rfc_token_c1_8)
qed

text \<open>
  The claim as it was stated (the exact floor for all inputs) fails far from the present:
  the timestamp 144115188075856992 is a double, its thousandth is not, and the first
  division rounds 144115188075856.992 up to the next integer, so that at period 1 the
  counter is 144115188075857, one above the exact floor.
\<close>

theorem TOTP_counter_rounds_up:
  "number 144115188075856992 = 144115188075856992 \<and>
   TOTP_counter node_sha1 (Some 1) (Some 144115188075856992) = 144115188075857 \<and>
   \<lfloor>real_of_int 144115188075856992 / 1000 / real_of_int 1\<rfloor> = 144115188075856 \<and>
   (144115188075856992 :: int) div (1000 * 1) = 144115188075856"
proof -
  have "TOTP_counter node_sha1 (Some 1) (Some 144115188075856992) = 144115188075857"
    unfolding TOTP_counter_def default_to_def option.case
    by (rule two_divisions_far_timestamp)
  then show ?thesis
    by (simp add: number_far_timestamp)
qed

section \<open>The counter of an HOTP object\<close>

text \<open>
  Claim C10, as the code has it. A call of the instance method \<open>generate\<close> that passes
  no counter generates at the object's counter and stores the double nearest to the
  counter plus one in that field, leaving every other field as it was, also when
  generation throws: the field grows by exactly one when \<open>\<bar>counter + 1\<bar> \<le> 2 ^ 53\<close>. A
  call that passes a counter generates at that counter and changes nothing. A call of
  the instance method \<open>validate\<close> validates against the passed counter, or the object's
  counter when none is passed, and changes nothing.
\<close>

theorem HOTP_instance_frame:
  "HOTP_generate_instance env this None =
     (HOTP_generate env (h_secret this) (Some (h_algorithm this)) (Some (h_digits this))
        (Some (h_counter this)),
      this\<lparr>h_counter := number (h_counter this + 1)\<rparr>) \<and>
   (\<bar>h_counter this + 1\<bar> \<le> 2 ^ 53 \<longrightarrow>
      h_counter (snd (HOTP_generate_instance env this None)) = h_counter this + 1) \<and>
   h_issuer (snd (HOTP_generate_instance env this None)) = h_issuer this \<and>
   h_label (snd (HOTP_generate_instance env this None)) = h_label this \<and>
   h_issuerInLabel (snd (HOTP_generate_instance env this None)) = h_issuerInLabel this \<and>
   h_secret (snd (HOTP_generate_instance env this None)) = h_secret this \<and>
   h_algorithm (snd (HOTP_generate_instance env this None)) = h_algorithm this \<and>
   h_digits (snd (HOTP_generate_instance env this None)) = h_digits this \<and>
   HOTP_generate_instance env this (Some c) =
     (HOTP_generate env (h_secret this) (Some (h_algorithm this)) (Some (h_digits this)) (Some c),
      this) \<and>
   HOTP_validate_instance env this token None window =
     (HOTP_validate env token (h_secret this) (Some (h_algorithm this)) (Some (h_digits this))
        (Some (h_counter this)) window,
      this) \<and>
   HOTP_validate_instance env this token (Some c) window =
     (HOTP_validate env token (h_secret this) (Some (h_algorithm this)) (Some (h_digits this))
        (Some c) window,
      this)"
proof -
  have "h_counter (snd (HOTP_generate_instance env this None)) = h_counter this + 1"
    if "\<bar>h_counter this + 1\<bar> \<le> 2 ^ 53"
    using number_exact [OF that] by (simp add: HOTP_generate_instance_def)
  then show ?thesis
    by (simp add: HOTP_generate_instance_def HOTP_validate_instance_def default_to_def)
qed

theorem HOTP_instance_frame_witness:
  "fst (HOTP_generate_instance node_sha1
       \<lparr>h_issuer = [], h_label = ''OTPAuth'', h_issuerInLabel = True, h_secret = rfc_secret,
        h_algorithm = ''SHA1'', h_digits = 6, h_counter = 0\<rparr> None) = Inr ''755224'' \<and>
   snd (HOTP_generate_instance node_sha1
       \<lparr>h_issuer = [], h_label = ''OTPAuth'', h_issuerInLabel = True, h_secret = rfc_secret,
        h_algorithm = ''SHA1'', h_digits = 6, h_counter = 0\<rparr> None) =
     \<lparr>h_issuer = [], h_label = ''OTPAuth'', h_issuerInLabel = True, h_secret = rfc_secret,
      h_algorithm = ''SHA1'', h_digits = 6, h_counter = 1\<rparr>"
  using HOTP_instance_frame [of node_sha1
      "\<lparr>h_issuer = [], h_label = ''OTPAuth'', h_issuerInLabel = True, h_secret = rfc_secret,
        h_algorithm = ''SHA1'', h_digits = 6, h_counter = 0\<rparr>"]
  by (simp add: HOTP_generate_instance_def rfc_token_c0_6)

text \<open>
  The claim as it was stated (every call of \<open>generate\<close> adds exactly one to the counter)
  fails at a call with an explicit counter, where the object keeps its counter, and at
  large counters, where the increment is not exact: at \<open>2 ^ 53\<close>, which is
  9007199254740992, the field stays as it is, and at \<open>2 ^ 53 + 2\<close> it grows by two.
\<close>

theorem HOTP_generate_instance_counter_not_incremented:
  "h_counter (snd (HOTP_generate_instance node_sha1
       \<lparr>h_issuer = [], h_label = ''OTPAuth'', h_issuerInLabel = True, h_secret = rfc_secret,
        h_algorithm = ''SHA1'', h_digits = 6, h_counter = 0\<rparr> (Some 1))) = 0 \<and>
   fst (HOTP_generate_instance node_sha1
       \<lparr>h_issuer = [], h_label = ''OTPAuth'', h_issuerInLabel = True, h_secret = rfc_secret,
        h_algorithm = ''SHA1'', h_digits = 6, h_counter = 0\<rparr> (Some 1)) = Inr ''287082'' \<and>
   h_counter (snd (HOTP_generate_instance node_sha1
       \<lparr>h_issuer = [], h_label = ''OTPAuth'', h_issuerInLabel = True, h_secret = rfc_secret,
        h_algorithm = ''SHA1'', h_digits = 6, h_counter = 9007199254740992\<rparr> None)) =
     9007199254740992 \<and>
   h_counter (snd (HOTP_generate_instance node_sha1
       \<lparr>h_issuer = [], h_label = ''OTPAuth'', h_issuerInLabel = True, h_secret = rfc_secret,
        h_algorithm = ''SHA1'', h_digits = 6, h_counter = 9007199254740994\<rparr> None)) =
     9007199254740996"
  using number_stuck number_jump
  by (simp add: HOTP_generate_instance_def rfc_token_c1_6)

section \<open>The base32 round trip\<close>

subsection \<open>The encoder's loops\<close>

lemma encode_while_stop:
  "bits < 5 \<Longrightarrow> encode_while bits v str = (bits, str)"
  by (simp add: encode_while.simps [of bits])

lemma encode_while_one:
  "5 \<le> bits \<Longrightarrow> bits < 10 \<Longrightarrow>
   encode_while bits v str = (bits - 5, str @ [ALPHABET ! unat (drop_bit (bits - 5) v AND 31)])"
  by (simp add: encode_while.simps [of bits] encode_while_stop)

lemma encode_while_two:
  "10 \<le> bits \<Longrightarrow> bits < 15 \<Longrightarrow>
   encode_while bits v str =
     (bits - 10, str @ [ALPHABET ! unat (drop_bit (bits - 5) v AND 31),
                        ALPHABET ! unat (drop_bit (bits - 10) v AND 31)])"
  by (simp add: encode_while.simps [of bits] encode_while_one)

lemma encode_rest_Cons_one:
  assumes "bits < 2"
  shows "encode_rest (a # arr) bits v =
     ALPHABET ! unat (drop_bit (bits + 3) (push_bit 8 v OR ucast a) AND 31) #
     encode_rest arr (bits + 3) (push_bit 8 v OR ucast a)"
proof -
  have e: "bits + 8 - 5 = bits + 3" by simp
  have "encode_while (bits + 8) (push_bit 8 v OR ucast a) [] =
      (bits + 8 - 5, [] @ [ALPHABET ! unat (drop_bit (bits + 8 - 5) (push_bit 8 v OR ucast a) AND 31)])"
    by (rule encode_while_one) (use assms in simp_all)
  then show ?thesis
    by (simp only: encode_rest.simps e prod.case append.simps)
qed

lemma encode_rest_Cons_two:
  assumes "2 \<le> bits" "bits < 5"
  shows "encode_rest (a # arr) bits v =
     ALPHABET ! unat (drop_bit (bits + 3) (push_bit 8 v OR ucast a) AND 31) #
     ALPHABET ! unat (drop_bit (bits - 2) (push_bit 8 v OR ucast a) AND 31) #
     encode_rest arr (bits - 2) (push_bit 8 v OR ucast a)"
proof -
  have e: "bits + 8 - 5 = bits + 3" "bits + 8 - 10 = bits - 2" by simp_all
  have "encode_while (bits + 8) (push_bit 8 v OR ucast a) [] =
      (bits + 8 - 10, [] @ [ALPHABET ! unat (drop_bit (bits + 8 - 5) (push_bit 8 v OR ucast a) AND 31),
                          ALPHABET ! unat (drop_bit (bits + 8 - 10) (push_bit 8 v OR ucast a) AND 31)])"
    by (rule encode_while_two) (use assms in simp_all)
  then show ?thesis
    by (simp only: encode_rest.simps e prod.case append.simps)
qed

lemma encode_for_rest:
  "bits < 5 \<Longrightarrow>
   (case encode_for arr bits v str of (bits', v', str') \<Rightarrow> str' @ encode_tail bits' v') =
     str @ encode_rest arr bits v"
proof (induction arr arbitrary: bits v str)
  case Nil
  then show ?case by simp
next
  case (Cons a arr)
  define w where "w = push_bit 8 v OR (ucast a :: 32 word)"
  define s where "s = ALPHABET ! unat (drop_bit (bits + 3) w AND 31)"
  define t where "t = ALPHABET ! unat (drop_bit (bits - 2) w AND 31)"
  have e: "bits + 8 - 5 = bits + 3" "bits + 8 - 10 = bits - 2" by simp_all
  show ?case
  proof (cases "bits < 2")
    case True
    have "encode_while (bits + 8) w str = (bits + 8 - 5, str @ [ALPHABET ! unat (drop_bit (bits + 8 - 5) w AND 31)])"
      by (rule encode_while_one) (use True in simp_all)
    then have "encode_while (bits + 8) w str = (bits + 3, str @ [s])"
      by (simp only: e s_def)
    then have "encode_for (a # arr) bits v str = encode_for arr (bits + 3) w (str @ [s])"
      by (simp add: w_def)
    moreover have "encode_rest (a # arr) bits v = s # encode_rest arr (bits + 3) w"
      using True by (simp only: encode_rest_Cons_one w_def s_def)
    ultimately show ?thesis
      using Cons.IH [of "bits + 3" w "str @ [s]"] True by simp
  next
    case False
    have "encode_while (bits + 8) w str =
        (bits + 8 - 10, str @ [ALPHABET ! unat (drop_bit (bits + 8 - 5) w AND 31),
                               ALPHABET ! unat (drop_bit (bits + 8 - 10) w AND 31)])"
      by (rule encode_while_two) (use False Cons.prems in simp_all)
    then have "encode_while (bits + 8) w str = (bits - 2, str @ [s, t])"
      by (simp only: e s_def t_def)
    then have "encode_for (a # arr) bits v str = encode_for arr (bits - 2) w (str @ [s, t])"
      by (simp add: w_def)
    moreover have "encode_rest (a # arr) bits v = s # t # encode_rest arr (bits - 2) w"
      using False Cons.prems by (simp only: encode_rest_Cons_two w_def s_def t_def)
    ultimately show ?thesis
      using Cons.IH [of "bits - 2" w "str @ [s, t]"] Cons.prems by simp
  qed
qed

lemma base32Encode_rest: "base32Encode arr = encode_rest arr 0 0"
proof (cases "encode_for arr 0 0 []")
  case (fields bits v str)
  then show ?thesis
    using encode_for_rest [of 0 arr 0 "[]"]
    by (auto simp add: base32Encode_def encode_tail_def)
qed

lemma length_encode_rest:
  "bits < 5 \<Longrightarrow> length (encode_rest arr bits v) = (bits + 8 * length arr + 4) div 5"
proof (induction arr arbitrary: bits v)
  case Nil
  have "0 < bits \<Longrightarrow> (bits + 4) div 5 = 1"
    using Nil by presburger
  then show ?case by (simp add: encode_tail_def)
next
  case (Cons a arr)
  show ?case
  proof (cases "bits < 2")
    case True
    then show ?thesis
      using Cons.IH [of "bits + 3"] by (simp only: encode_rest_Cons_one) simp
  next
    case False
    then have "length (encode_rest (a # arr) bits v) =
        Suc (Suc ((bits - 2 + 8 * length arr + 4) div 5))"
      using Cons.IH [of "bits - 2"] Cons.prems by (simp only: encode_rest_Cons_two) simp
    then show ?thesis using False Cons.prems by simp
  qed
qed

lemma unat_and_31: "unat (w AND 31 :: 32 word) < 32"
proof -
  have "w AND 31 \<le> 31" by (rule word_and_le1)
  then have "unat (w AND 31) \<le> unat (31 :: 32 word)" by (simp add: word_le_nat_alt)
  then show ?thesis by simp
qed

lemma symbol_in_ALPHABET: "ALPHABET ! unat (w AND 31 :: 32 word) \<in> set ALPHABET"
proof -
  have "length ALPHABET = 32" by (simp add: ALPHABET_def)
  then show ?thesis using unat_and_31 [of w] by (simp del: and_numerals)
qed

lemma set_encode_rest:
  "bits < 5 \<Longrightarrow> set (encode_rest arr bits v) \<subseteq> set ALPHABET"
proof (induction arr arbitrary: bits v)
  case Nil
  then show ?case using symbol_in_ALPHABET by (auto simp add: encode_tail_def)
next
  case (Cons a arr)
  show ?case
  proof (cases "bits < 2")
    case True
    then show ?thesis
      using Cons.IH [of "bits + 3"] symbol_in_ALPHABET
      by (simp only: encode_rest_Cons_one) simp
  next
    case False
    then show ?thesis
      using Cons.IH [of "bits - 2"] Cons.prems symbol_in_ALPHABET
      by (simp only: encode_rest_Cons_two) simp
  qed
qed

subsection \<open>The decoder's input and output\<close>

lemma indexOf_nth:
  "distinct xs \<Longrightarrow> i < length xs \<Longrightarrow> indexOf xs (xs ! i) = Some i"
proof (induction xs arbitrary: i)
  case Nil
  then show ?case by simp
next
  case (Cons x xs)
  then show ?case by (cases i) auto
qed

lemma distinct_ALPHABET: "distinct ALPHABET"
  by (simp add: ALPHABET_def)

lemma indexOf_symbol:
  "indexOf ALPHABET (ALPHABET ! unat (w AND 31 :: 32 word)) = Some (unat (w AND 31))"
proof -
  have "length ALPHABET = 32" by (simp add: ALPHABET_def)
  then show ?thesis
    using unat_and_31 [of w] distinct_ALPHABET by (simp add: indexOf_nth del: and_numerals)
qed

lemma ALPHABET_upper:
  "c \<in> set ALPHABET \<Longrightarrow> map_of upper_table c = None \<and> c \<noteq> CHR '' '' \<and> c \<noteq> CHR ''=''"
proof -
  have "\<forall>c \<in> set ALPHABET. map_of upper_table c = None \<and> c \<noteq> CHR '' '' \<and> c \<noteq> CHR ''=''"
    by (simp add: ALPHABET_def upper_table_def)
  then show "c \<in> set ALPHABET \<Longrightarrow>
      map_of upper_table c = None \<and> c \<noteq> CHR '' '' \<and> c \<noteq> CHR ''=''"
    by blast
qed

lemma strip_end_last:
  "s \<noteq> [] \<Longrightarrow> last s \<noteq> CHR ''='' \<Longrightarrow> strip_end s (length s) = length s"
  by (cases s rule: rev_cases) simp_all

lemma strip_input_ALPHABET:
  assumes "set s \<subseteq> set ALPHABET"
  shows "strip_input s = s"
proof -
  have f: "filter (\<lambda>c. c \<noteq> CHR '' '') s = s"
    using assms ALPHABET_upper by (auto simp add: filter_id_conv)
  have "map (\<lambda>c. case map_of upper_table c of None \<Rightarrow> c | Some u \<Rightarrow> u) s = s"
    by (rule map_idI) (use assms ALPHABET_upper in auto)
  then have u: "toUpperCase s = s"
    by (simp add: toUpperCase_def)
  have "strip_end s (length s) = length s"
  proof (cases "s = []")
    case True
    then show ?thesis by simp
  next
    case False
    then have "last s \<in> set ALPHABET" using assms by auto
    then show ?thesis using False ALPHABET_upper strip_end_last by blast
  qed
  then show ?thesis by (simp add: strip_input_def f u)
qed

lemma write_from_eq:
  "index + length bs \<le> length arr \<Longrightarrow>
   write_from arr index bs = take index arr @ bs @ drop (index + length bs) arr"
proof (induction bs arbitrary: arr index)
  case Nil
  then show ?case by simp
next
  case (Cons b bs)
  then have "write_from (arr[index := b]) (Suc index) bs =
      take (Suc index) (arr[index := b]) @ bs @ drop (Suc index + length bs) (arr[index := b])"
    by simp
  then show ?case using Cons.prems by (simp add: take_Suc_conv_app_nth)
qed

lemma write_from_all: "write_from (replicate (length bs) 0) 0 bs = bs"
  by (simp add: write_from_eq)

lemma length_decode_for:
  "decode_for cs bits v index arr = Inr r \<Longrightarrow> length r = length arr"
proof (induction cs arbitrary: bits v index arr)
  case Nil
  then show ?case by simp
next
  case (Cons c cs)
  then show ?case by (auto split: option.splits if_splits)
qed

subsection \<open>The low bits of the two accumulators\<close>

lemma uint_full:
  fixes v :: "32 word"
  shows "take_bit 32 (uint v) = uint v"
  by (rule take_bit_int_eq_self) (use uint_lt2p [of v] in simp_all)

lemma low_push_or:
  fixes v y :: "32 word"
  assumes "n + k \<le> 32" "uint y < 2 ^ k"
  shows "take_bit (n + k) (uint (push_bit k v OR y)) = take_bit n (uint v) * 2 ^ k + uint y"
proof -
  have "min (n + k) 32 = n + k"
    using assms(1) by simp
  then have "take_bit (n + k) (uint (push_bit k v)) = take_bit (n + k) (push_bit k (uint v))"
    by (simp add: unsigned_push_bit_eq)
  then have "take_bit (n + k) (uint (push_bit k v)) = push_bit k (take_bit n (uint v))"
    by (simp add: take_bit_push_bit)
  moreover have "take_bit (n + k) (uint y) = uint y"
    using assms(2) by (simp add: take_bit_int_eq_self power_add mult.commute
        order_less_le_trans [of "uint y" "2 ^ k" "2 ^ k * 2 ^ n"])
  ultimately have "take_bit (n + k) (uint (push_bit k v OR y)) =
      push_bit k (take_bit n (uint v)) OR uint y"
    by (simp add: uint_or)
  then show ?thesis
    using assms(2) by (simp add: or_low_int)
qed

lemma low_drop_and_31:
  fixes v :: "32 word"
  assumes "k + 5 \<le> n" "n \<le> 32"
  shows "uint (drop_bit k v AND 31) = take_bit n (uint v) div 2 ^ k mod 32"
proof -
  have "drop_bit k v AND 31 = take_bit 5 (drop_bit k v)"
    by (simp add: take_bit_eq_mask mask_eq_exp_minus_1)
  then have "uint (drop_bit k v AND 31) = take_bit 5 (drop_bit k (uint v))"
    by (simp add: unsigned_take_bit_eq unsigned_drop_bit_eq uint_full del: and_numerals)
  also have "\<dots> = drop_bit k (take_bit (5 + k) (uint v))"
    by (simp add: take_bit_drop_bit)
  also have "take_bit (5 + k) (uint v) = take_bit (5 + k) (take_bit n (uint v))"
    using assms by (simp add: min_def)
  also have "drop_bit k (take_bit (5 + k) (take_bit n (uint v))) =
      take_bit 5 (drop_bit k (take_bit n (uint v)))"
    by (simp add: take_bit_drop_bit)
  finally show ?thesis
    by (simp add: take_bit_eq_mod drop_bit_eq_div)
qed

lemma low_drop_byte:
  fixes v :: "32 word"
  assumes "k + 8 \<le> n" "n \<le> 32"
  shows "uint (ucast (drop_bit k v) :: byte) = take_bit n (uint v) div 2 ^ k mod 256"
proof -
  have "uint (ucast (drop_bit k v) :: byte) = take_bit 8 (drop_bit k (uint v))"
    by (simp add: unsigned_ucast_eq unsigned_drop_bit_eq uint_full)
  also have "\<dots> = drop_bit k (take_bit (8 + k) (uint v))"
    by (simp add: take_bit_drop_bit)
  also have "take_bit (8 + k) (uint v) = take_bit (8 + k) (take_bit n (uint v))"
    using assms by (simp add: min_def)
  also have "drop_bit k (take_bit (8 + k) (take_bit n (uint v))) =
      take_bit 8 (drop_bit k (take_bit n (uint v)))"
    by (simp add: take_bit_drop_bit)
  finally show ?thesis
    by (simp add: take_bit_eq_mod drop_bit_eq_div)
qed

lemma low_push_and_31:
  fixes v :: "32 word"
  assumes "b \<le> 5"
  shows "uint (push_bit (5 - b) v AND 31) = take_bit b (uint v) * 2 ^ (5 - b)"
proof -
  have "push_bit (5 - b) v AND 31 = take_bit 5 (push_bit (5 - b) v)"
    by (simp add: take_bit_eq_mask mask_eq_exp_minus_1)
  then have "uint (push_bit (5 - b) v AND 31) = take_bit 5 (push_bit (5 - b) (uint v))"
    by (simp add: unsigned_take_bit_eq unsigned_push_bit_eq min_def del: and_numerals)
  also have "\<dots> = push_bit (5 - b) (take_bit b (uint v))"
    using assms by (simp add: take_bit_push_bit)
  finally show ?thesis by (simp add: push_bit_eq_mult)
qed

lemma low_low:
  fixes x :: int
  assumes "m \<le> n"
  shows "take_bit m x = take_bit n x mod 2 ^ m"
proof -
  have "take_bit m x = take_bit m (take_bit n x)"
    using assms by (simp add: min_def)
  then show ?thesis by (simp only: take_bit_eq_mod [of m "take_bit n x"])
qed

lemma uint_and_31: "uint (w AND 31 :: 32 word) < 32"
proof -
  have "w AND 31 \<le> 31" by (rule word_and_le1)
  then have "uint (w AND 31) \<le> uint (31 :: 32 word)" by (simp only: word_le_def)
  then show ?thesis by simp
qed

subsection \<open>Regrouping bits, in numbers\<close>

text \<open>
  \<open>K\<close>, \<open>J\<close> and \<open>M\<close> stand for powers of two: a byte \<open>D * M + E\<close> is followed by the
  byte \<open>A'\<close>, and five bits at a time are read from \<open>E * 256 + A'\<close>.
\<close>

lemma div_bound:
  fixes x K J :: int
  assumes "0 < K" "0 \<le> x" "x < K * J"
  shows "0 \<le> x div K" "x div K < J"
proof -
  show "0 \<le> x div K"
    using assms(1,2) by (simp add: pos_imp_zdiv_nonneg_iff)
  have "K * (x div K) + x mod K = x" "0 \<le> x mod K"
    using assms(1) by simp_all
  then have "K * (x div K) \<le> x"
    by linarith
  then have "K * (x div K) < K * J"
    using assms(3) by simp
  then show "x div K < J"
    using assms(1) by (simp add: mult_less_cancel_left_pos)
qed

lemma first_symbol:
  fixes A' D E K J M :: int
  assumes K: "0 < K" and J: "0 < J" and KJ: "K * J = 256" and MJ: "M * J = 32"
    and A': "0 \<le> A'" "A' < 256" and E: "0 \<le> E" "E < M" and D: "0 \<le> D"
    and A: "D * M + E < 256"
  shows "(D * 32 + (E * 256 + A') div K mod 32) div J mod 256 = D * M + E"
    and "(D * 32 + (E * 256 + A') div K mod 32) mod J = A' div K"
    and "(E * 256 + A') mod K = A' mod K"
proof -
  define H where "H = A' div K"
  have H: "0 \<le> H" "H < J"
    using div_bound [of K A' J] K A' KJ by (simp_all add: H_def)
  have eq: "E * 256 + A' = A' + (E * J) * K"
    using KJ [symmetric] by (simp add: algebra_simps)
  have "(A' + (E * J) * K) div K = E * J + H" "(A' + (E * J) * K) mod K = A' mod K"
    using K by (simp_all add: H_def)
  then have P: "(E * 256 + A') div K = E * J + H" and P': "(E * 256 + A') mod K = A' mod K"
    by (simp_all only: eq)
  have M: "0 < M" using E by linarith
  have "E + 1 \<le> M" using E by simp
  then have "(E + 1) * J \<le> M * J"
    using J by (simp only: mult_right_mono)
  then have "E * J + H < 32"
    using H MJ by (simp add: algebra_simps)
  moreover have "0 \<le> E * J + H"
    using E J H by simp
  ultimately have X: "(E * 256 + A') div K mod 32 = E * J + H"
    by (simp add: P)
  have eq': "D * 32 + (E * J + H) = H + (D * M + E) * J"
    using MJ [symmetric] by (simp add: algebra_simps)
  have "(H + (D * M + E) * J) div J = D * M + E" "(H + (D * M + E) * J) mod J = H"
    using J H by simp_all
  then have Q: "(D * 32 + (E * J + H)) div J = D * M + E"
    and R: "(D * 32 + (E * J + H)) mod J = H"
    by (simp_all only: eq')
  have "0 \<le> D * M"
    using D M by simp
  then have "0 \<le> D * M + E"
    using E by simp
  then show "(D * 32 + (E * 256 + A') div K mod 32) div J mod 256 = D * M + E"
    using A by (simp add: X Q)
  show "(D * 32 + (E * 256 + A') div K mod 32) mod J = A' div K"
    unfolding X R by (simp only: H_def)
  show "(E * 256 + A') mod K = A' mod K"
    by (rule P')
qed

lemma second_symbol:
  fixes A' E K J :: int
  assumes K: "0 < K" and KJ: "K * 32 * J = 256"
  shows "A' div (K * 32) * 32 + (E * 256 + A') div K mod 32 = A' div K"
    and "(E * 256 + A') mod K = A' mod K"
proof -
  have eq: "E * 256 + A' = A' + (E * J * 32) * K"
    using KJ [symmetric] by (simp add: algebra_simps)
  have "(A' + (E * J * 32) * K) div K = A' div K + E * J * 32"
    "(A' + (E * J * 32) * K) mod K = A' mod K"
    using K by simp_all
  then have P: "(E * 256 + A') div K = A' div K + E * J * 32"
    and P': "(E * 256 + A') mod K = A' mod K"
    by (simp_all only: eq)
  have "(E * 256 + A') div K mod 32 = A' div K mod 32"
    by (simp add: P)
  moreover have "A' div (K * 32) = A' div K div 32"
    using K by (simp add: zdiv_zmult2_eq)
  ultimately show "A' div (K * 32) * 32 + (E * 256 + A') div K mod 32 = A' div K"
    by simp
  show "(E * 256 + A') mod K = A' mod K"
    by (rule P')
qed

lemma tail_symbol:
  fixes D E J M :: int
  assumes J: "0 < J" and M: "0 < M" and MJ: "M * J = 32" and E: "0 \<le> E" and D: "0 \<le> D"
    and A: "D * M + E < 256"
  shows "(D * 32 + E * J) div J mod 256 = D * M + E"
proof -
  have eq: "D * 32 + E * J = (D * M + E) * J"
    using MJ [symmetric] by (simp add: algebra_simps)
  have "((D * M + E) * J) div J = D * M + E"
    using J by simp
  then have "(D * 32 + E * J) div J = D * M + E"
    by (simp only: eq)
  moreover have "0 \<le> D * M"
    using D M by simp
  then have "0 \<le> D * M + E"
    using E by simp
  ultimately show ?thesis using A by simp
qed


lemma first_symbol_pow:
  fixes A A' :: int
  assumes "eb < 5" "0 \<le> A" "A < 256" "0 \<le> A'" "A' < 256"
  shows "(A div 2 ^ eb * 32 + ((A mod 2 ^ eb) * 256 + A') div 2 ^ (eb + 3) mod 32)
           div 2 ^ (5 - eb) mod 256 = A"
    and "(A div 2 ^ eb * 32 + ((A mod 2 ^ eb) * 256 + A') div 2 ^ (eb + 3) mod 32)
           mod 2 ^ (5 - eb) = A' div 2 ^ (eb + 3)"
    and "((A mod 2 ^ eb) * 256 + A') mod 2 ^ (eb + 3) = A' mod 2 ^ (eb + 3)"
proof -
  have "(2 :: int) ^ (eb + 3) * 2 ^ (5 - eb) = 2 ^ (eb + 3 + (5 - eb))"
    by (simp only: power_add)
  then have KJ: "(2 :: int) ^ (eb + 3) * 2 ^ (5 - eb) = 256"
    using assms(1) by simp
  have "(2 :: int) ^ eb * 2 ^ (5 - eb) = 2 ^ (eb + (5 - eb))"
    by (simp only: power_add)
  then have MJ: "(2 :: int) ^ eb * 2 ^ (5 - eb) = 32"
    using assms(1) by simp
  have pos: "\<And>n. (0 :: int) < 2 ^ n"
    by simp
  have E: "0 \<le> A mod 2 ^ eb" "A mod 2 ^ eb < 2 ^ eb"
    by simp_all
  have D: "0 \<le> A div 2 ^ eb"
    using assms(2) by (simp add: pos_imp_zdiv_nonneg_iff)
  have A: "A div 2 ^ eb * 2 ^ eb + A mod 2 ^ eb < 256"
    using assms(3) by (simp only: div_mult_mod_eq)
  note r = first_symbol [where K = "2 ^ (eb + 3)" and J = "2 ^ (5 - eb)" and M = "2 ^ eb" and A' = A'
      and E = "A mod 2 ^ eb" and D = "A div 2 ^ eb",
      OF pos pos KJ MJ assms(4,5) E D A]
  show "(A div 2 ^ eb * 32 + ((A mod 2 ^ eb) * 256 + A') div 2 ^ (eb + 3) mod 32)
           div 2 ^ (5 - eb) mod 256 = A"
    using r(1) by (simp only: div_mult_mod_eq)
  show "(A div 2 ^ eb * 32 + ((A mod 2 ^ eb) * 256 + A') div 2 ^ (eb + 3) mod 32)
           mod 2 ^ (5 - eb) = A' div 2 ^ (eb + 3)"
    using r(2) by simp
  show "((A mod 2 ^ eb) * 256 + A') mod 2 ^ (eb + 3) = A' mod 2 ^ (eb + 3)"
    using r(3) by simp
qed

lemma second_symbol_pow:
  fixes A' E :: int
  assumes "2 \<le> eb" "eb < 5"
  shows "A' div 2 ^ (eb + 3) * 32 + (E * 256 + A') div 2 ^ (eb - 2) mod 32 = A' div 2 ^ (eb - 2)"
    and "(E * 256 + A') mod 2 ^ (eb - 2) = A' mod 2 ^ (eb - 2)"
proof -
  have pos: "(0 :: int) < 2 ^ (eb - 2)"
    by simp
  have "(2 :: int) ^ (eb - 2) * 2 ^ 5 * 2 ^ (5 - eb) = 2 ^ (eb - 2 + 5 + (5 - eb))"
    by (simp only: power_add)
  then have KJ: "(2 :: int) ^ (eb - 2) * 32 * 2 ^ (5 - eb) = 256"
    using assms by simp
  have "(2 :: int) ^ (eb - 2) * 2 ^ 5 = 2 ^ (eb - 2 + 5)"
    by (simp only: power_add)
  then have K: "(2 :: int) ^ (eb - 2) * 32 = 2 ^ (eb + 3)"
    using assms by simp
  note r = second_symbol [where K = "2 ^ (eb - 2)" and J = "2 ^ (5 - eb)" and A' = A' and E = E, OF pos KJ]
  show "A' div 2 ^ (eb + 3) * 32 + (E * 256 + A') div 2 ^ (eb - 2) mod 32 = A' div 2 ^ (eb - 2)"
    using r(1) by (simp only: K)
  show "(E * 256 + A') mod 2 ^ (eb - 2) = A' mod 2 ^ (eb - 2)"
    by (rule r(2))
qed

lemma tail_symbol_pow:
  fixes A :: int
  assumes "eb < 5" "0 \<le> A" "A < 256"
  shows "(A div 2 ^ eb * 32 + (A mod 2 ^ eb) * 2 ^ (5 - eb)) div 2 ^ (5 - eb) mod 256 = A"
proof -
  have "(2 :: int) ^ eb * 2 ^ (5 - eb) = 2 ^ (eb + (5 - eb))"
    by (simp only: power_add)
  then have MJ: "(2 :: int) ^ eb * 2 ^ (5 - eb) = 32"
    using assms(1) by simp
  have pos: "\<And>n. (0 :: int) < 2 ^ n"
    by simp
  have E: "0 \<le> A mod 2 ^ eb" "A mod 2 ^ eb < 2 ^ eb"
    by simp_all
  have D: "0 \<le> A div 2 ^ eb"
    using assms(2) by (simp add: pos_imp_zdiv_nonneg_iff)
  have A: "A div 2 ^ eb * 2 ^ eb + A mod 2 ^ eb < 256"
    using assms(3) by (simp only: div_mult_mod_eq)
  show ?thesis
    using tail_symbol [where J = "2 ^ (5 - eb)" and M = "2 ^ eb" and E = "A mod 2 ^ eb"
        and D = "A div 2 ^ eb", OF pos pos MJ E(1) D A]
    by (simp only: div_mult_mod_eq)
qed

subsection \<open>One step of each loop, in numbers\<close>

lemma encode_tail_symbol:
  assumes "0 < eb" "eb < 5"
  shows "\<exists>x :: 32 word. encode_tail eb ev = [ALPHABET ! unat x] \<and> uint x < 32 \<and>
           uint x = (uint ev mod 2 ^ eb) * 2 ^ (5 - eb)"
proof -
  have "uint (push_bit (5 - eb) ev AND 31) = (uint ev mod 2 ^ eb) * 2 ^ (5 - eb)"
    using assms low_push_and_31 [of eb ev] by (simp add: take_bit_eq_mod)
  then show ?thesis
    using assms uint_and_31 [of "push_bit (5 - eb) ev"]
    by (intro exI [of _ "push_bit (5 - eb) ev AND 31"]) (simp add: encode_tail_def)
qed

lemma encode_step:
  fixes ev :: "32 word" and a :: byte
  assumes "eb < 5"
  defines "w \<equiv> push_bit 8 ev OR ucast a"
  shows "uint (drop_bit (eb + 3) w AND 31) =
           ((uint ev mod 2 ^ eb) * 256 + uint a) div 2 ^ (eb + 3) mod 32"
    and "uint w mod 2 ^ (eb + 3) = ((uint ev mod 2 ^ eb) * 256 + uint a) mod 2 ^ (eb + 3)"
    and "2 \<le> eb \<Longrightarrow> uint (drop_bit (eb - 2) w AND 31) =
           ((uint ev mod 2 ^ eb) * 256 + uint a) div 2 ^ (eb - 2) mod 32"
    and "2 \<le> eb \<Longrightarrow> uint w mod 2 ^ (eb - 2) =
           ((uint ev mod 2 ^ eb) * 256 + uint a) mod 2 ^ (eb - 2)"
proof -
  have "uint (ucast a :: 32 word) = uint a"
    by (simp add: uint_up_ucast is_up)
  then have p: "take_bit (eb + 8) (uint w) = (uint ev mod 2 ^ eb) * 256 + uint a"
    using assms(1) low_push_or [of eb 8 "ucast a" ev] uint_lt2p [of a]
    by (simp add: w_def take_bit_eq_mod)
  show "uint (drop_bit (eb + 3) w AND 31) =
      ((uint ev mod 2 ^ eb) * 256 + uint a) div 2 ^ (eb + 3) mod 32"
  proof -
    have "uint (drop_bit (eb + 3) w AND 31) = take_bit (eb + 8) (uint w) div 2 ^ (eb + 3) mod 32"
      by (rule low_drop_and_31) (use assms(1) in simp_all)
    then show ?thesis by (simp only: p)
  qed
  show "uint w mod 2 ^ (eb + 3) = ((uint ev mod 2 ^ eb) * 256 + uint a) mod 2 ^ (eb + 3)"
  proof -
    have "take_bit (eb + 3) (uint w) = take_bit (eb + 8) (uint w) mod 2 ^ (eb + 3)"
      by (rule low_low) simp
    then show ?thesis by (simp only: p take_bit_eq_mod [of "eb + 3"])
  qed
  show "uint (drop_bit (eb - 2) w AND 31) =
      ((uint ev mod 2 ^ eb) * 256 + uint a) div 2 ^ (eb - 2) mod 32" if "2 \<le> eb"
  proof -
    have "uint (drop_bit (eb - 2) w AND 31) = take_bit (eb + 8) (uint w) div 2 ^ (eb - 2) mod 32"
      by (rule low_drop_and_31) (use that assms(1) in simp_all)
    then show ?thesis by (simp only: p)
  qed
  show "uint w mod 2 ^ (eb - 2) = ((uint ev mod 2 ^ eb) * 256 + uint a) mod 2 ^ (eb - 2)"
    if "2 \<le> eb"
  proof -
    have "take_bit (eb - 2) (uint w) = take_bit (eb + 8) (uint w) mod 2 ^ (eb - 2)"
      by (rule low_low) simp
    then show ?thesis by (simp only: p take_bit_eq_mod [of "eb - 2"])
  qed
qed

lemma indexOf_small:
  fixes x :: "32 word"
  assumes "uint x < 32"
  shows "indexOf ALPHABET (ALPHABET ! unat x) = Some (unat x)"
proof -
  have "length ALPHABET = 32" by (simp add: ALPHABET_def)
  moreover have "x < 32" using assms by (simp add: word_less_def)
  then have "unat x < 32" by (simp add: word_less_nat_alt)
  ultimately show ?thesis using distinct_ALPHABET by (simp add: indexOf_nth)
qed

lemma decode_step:
  fixes dv x :: "32 word"
  assumes "db < 8" "uint x < 32"
  defines "dv' \<equiv> push_bit 5 dv OR x"
  shows "uint dv' mod 2 ^ (db + 5) = (uint dv mod 2 ^ db) * 32 + uint x"
    and "3 \<le> db \<Longrightarrow> uint (ucast (drop_bit (db - 3) dv') :: byte) =
           ((uint dv mod 2 ^ db) * 32 + uint x) div 2 ^ (db - 3) mod 256"
    and "3 \<le> db \<Longrightarrow> uint dv' mod 2 ^ (db - 3) =
           ((uint dv mod 2 ^ db) * 32 + uint x) mod 2 ^ (db - 3)"
    and "decode_for (ALPHABET ! unat x # cs) db dv index arr =
           (if 3 \<le> db
            then decode_for cs (db - 3) dv' (Suc index)
                   (arr[index := ucast (drop_bit (db - 3) dv')])
            else decode_for cs (db + 5) dv' index arr)"
proof -
  have p: "take_bit (db + 5) (uint dv') = (uint dv mod 2 ^ db) * 32 + uint x"
    using assms(1,2) low_push_or [of db 5 x dv] by (simp add: dv'_def take_bit_eq_mod)
  then show "uint dv' mod 2 ^ (db + 5) = (uint dv mod 2 ^ db) * 32 + uint x"
    by (simp only: take_bit_eq_mod [of "db + 5"])
  show "uint (ucast (drop_bit (db - 3) dv') :: byte) =
      ((uint dv mod 2 ^ db) * 32 + uint x) div 2 ^ (db - 3) mod 256" if "3 \<le> db"
  proof -
    have "uint (ucast (drop_bit (db - 3) dv') :: byte) =
        take_bit (db + 5) (uint dv') div 2 ^ (db - 3) mod 256"
      by (rule low_drop_byte) (use that assms(1) in simp_all)
    then show ?thesis by (simp only: p)
  qed
  show "uint dv' mod 2 ^ (db - 3) = ((uint dv mod 2 ^ db) * 32 + uint x) mod 2 ^ (db - 3)"
    if "3 \<le> db"
  proof -
    have "take_bit (db - 3) (uint dv') = take_bit (db + 5) (uint dv') mod 2 ^ (db - 3)"
      by (rule low_low) simp
    then show ?thesis by (simp only: p take_bit_eq_mod [of "db - 3"])
  qed
  have e: "db + 5 - 8 = db - 3" by simp
  show "decode_for (ALPHABET ! unat x # cs) db dv index arr =
      (if 3 \<le> db
       then decode_for cs (db - 3) dv' (Suc index) (arr[index := ucast (drop_bit (db - 3) dv')])
       else decode_for cs (db + 5) dv' index arr)"
    using assms(2) by (simp add: indexOf_small dv'_def e)
qed

subsection \<open>The decoder reads back what the encoder writes\<close>

text \<open>
  The encoder holds \<open>eb\<close> pending bits, the low bits of the last byte \<open>a\<close> it read;
  the decoder holds the \<open>8 - eb\<close> high bits of the same byte.
\<close>

lemma first_step:
  fixes ev dv :: "32 word" and a a' :: byte
  assumes eb: "0 < eb" "eb < 5"
    and inv: "uint dv mod 2 ^ (8 - eb) = uint a div 2 ^ eb" "uint ev mod 2 ^ eb = uint a mod 2 ^ eb"
  defines "w \<equiv> push_bit 8 ev OR ucast a'"
  defines "x \<equiv> drop_bit (eb + 3) w AND 31"
  defines "dv' \<equiv> push_bit 5 dv OR x"
  shows "decode_for (ALPHABET ! unat x # cs) (8 - eb) dv index arr =
           decode_for cs (5 - eb) dv' (Suc index) (arr[index := a])"
    and "uint dv' mod 2 ^ (5 - eb) = uint a' div 2 ^ (eb + 3)"
    and "uint w mod 2 ^ (eb + 3) = uint a' mod 2 ^ (eb + 3)"
proof -
  have A: "0 \<le> uint a" "uint a < 256" "0 \<le> uint a'" "uint a' < 256"
    using uint_lt2p [of a] uint_lt2p [of a'] by simp_all
  have db: "8 - eb < 8" "3 \<le> 8 - eb" "8 - eb - 3 = 5 - eb"
    using eb by simp_all
  have x32: "uint x < 32"
    unfolding x_def by (rule uint_and_31)
  have X: "uint x = ((uint a mod 2 ^ eb) * 256 + uint a') div 2 ^ (eb + 3) mod 32"
    unfolding x_def w_def by (simp only: encode_step(1) [OF eb(2)] inv(2))
  have "uint (ucast (drop_bit (8 - eb - 3) dv') :: byte) =
      ((uint dv mod 2 ^ (8 - eb)) * 32 + uint x) div 2 ^ (8 - eb - 3) mod 256"
    unfolding dv'_def by (rule decode_step(2) [OF db(1) x32 db(2)])
  then have "uint (ucast (drop_bit (5 - eb) dv') :: byte) = uint a"
    by (simp only: db(3) inv(1) X first_symbol_pow(1) [OF eb(2) A])
  then have b: "ucast (drop_bit (5 - eb) dv') = a"
    by (simp only: word_uint_eq_iff)
  have "decode_for (ALPHABET ! unat x # cs) (8 - eb) dv index arr =
      decode_for cs (8 - eb - 3) dv' (Suc index)
        (arr[index := ucast (drop_bit (8 - eb - 3) dv')])"
    unfolding dv'_def using db(2) by (simp only: decode_step(4) [OF db(1) x32] if_True)
  then show "decode_for (ALPHABET ! unat x # cs) (8 - eb) dv index arr =
      decode_for cs (5 - eb) dv' (Suc index) (arr[index := a])"
    by (simp only: db(3) b)
  have "uint dv' mod 2 ^ (8 - eb - 3) =
      ((uint dv mod 2 ^ (8 - eb)) * 32 + uint x) mod 2 ^ (8 - eb - 3)"
    unfolding dv'_def by (rule decode_step(3) [OF db(1) x32 db(2)])
  then show "uint dv' mod 2 ^ (5 - eb) = uint a' div 2 ^ (eb + 3)"
    by (simp only: db(3) inv(1) X first_symbol_pow(2) [OF eb(2) A])
  show "uint w mod 2 ^ (eb + 3) = uint a' mod 2 ^ (eb + 3)"
    unfolding w_def
    by (simp only: encode_step(2) [OF eb(2)] inv(2) first_symbol_pow(3) [OF eb(2) A])
qed

lemma decode_encode_rest:
  assumes "eb < 5"
    and "eb = 0 \<Longrightarrow> db = 0"
    and "0 < eb \<Longrightarrow> db = 8 - eb \<and> uint dv mod 2 ^ (8 - eb) = uint a div 2 ^ eb \<and>
           uint ev mod 2 ^ eb = uint a mod 2 ^ eb"
  shows "decode_for (encode_rest bs eb ev) db dv index arr =
           Inr (write_from arr index ((if eb = 0 then [] else [a]) @ bs))"
  using assms
proof (induction bs arbitrary: eb ev db dv a index arr)
  case Nil
  show ?case
  proof (cases "eb = 0")
    case True
    then show ?thesis by (simp add: encode_tail_def)
  next
    case False
    then have eb: "0 < eb" "eb < 5"
      using Nil.prems(1) by simp_all
    have inv: "db = 8 - eb" "uint dv mod 2 ^ (8 - eb) = uint a div 2 ^ eb"
      "uint ev mod 2 ^ eb = uint a mod 2 ^ eb"
      using Nil.prems(3) [OF eb(1)] by blast+
    have A: "0 \<le> uint a" "uint a < 256"
      using uint_lt2p [of a] by simp_all
    have db: "8 - eb < 8" "3 \<le> 8 - eb" "8 - eb - 3 = 5 - eb"
      using eb by simp_all
    define x :: "32 word" where "x = push_bit (5 - eb) ev AND 31"
    define dv' :: "32 word" where "dv' = push_bit 5 dv OR x"
    have x32: "uint x < 32"
      unfolding x_def by (rule uint_and_31)
    have "uint x = take_bit eb (uint ev) * 2 ^ (5 - eb)"
      unfolding x_def by (rule low_push_and_31) (use eb in simp)
    then have X: "uint x = (uint a mod 2 ^ eb) * 2 ^ (5 - eb)"
      by (simp only: take_bit_eq_mod [of eb] inv(3))
    have "uint (ucast (drop_bit (8 - eb - 3) dv') :: byte) =
        ((uint dv mod 2 ^ (8 - eb)) * 32 + uint x) div 2 ^ (8 - eb - 3) mod 256"
      unfolding dv'_def by (rule decode_step(2) [OF db(1) x32 db(2)])
    then have "uint (ucast (drop_bit (5 - eb) dv') :: byte) = uint a"
      by (simp only: db(3) inv(2) X tail_symbol_pow [OF eb(2) A])
    then have b: "ucast (drop_bit (5 - eb) dv') = a"
      by (simp only: word_uint_eq_iff)
    have "decode_for [ALPHABET ! unat x] (8 - eb) dv index arr =
        decode_for [] (8 - eb - 3) dv' (Suc index)
          (arr[index := ucast (drop_bit (8 - eb - 3) dv')])"
      unfolding dv'_def using db(2) by (simp only: decode_step(4) [OF db(1) x32] if_True)
    then have "decode_for [ALPHABET ! unat x] db dv index arr = Inr (arr[index := a])"
      by (simp only: db(3) b inv(1) decode_for.simps)
    moreover have "encode_rest [] eb ev = [ALPHABET ! unat x]"
      using eb(1) by (simp add: encode_tail_def x_def)
    ultimately show ?thesis using False by simp
  qed
next
  case (Cons a' bs)
  have A': "0 \<le> uint a'" "uint a' < 256"
    using uint_lt2p [of a'] by simp_all
  define w :: "32 word" where "w = push_bit 8 ev OR ucast a'"
  define x :: "32 word" where "x = drop_bit (eb + 3) w AND 31"
  define y :: "32 word" where "y = drop_bit (eb - 2) w AND 31"
  define dv' :: "32 word" where "dv' = push_bit 5 dv OR x"
  define dv'' :: "32 word" where "dv'' = push_bit 5 dv' OR y"
  have x32: "uint x < 32" and y32: "uint y < 32"
    unfolding x_def y_def by (rule uint_and_31)+
  note eb5 = Cons.prems(1)
  show ?case
  proof (cases "eb = 0")
    case True
    then have db0: "db = 0"
      using Cons.prems(2) by simp
    have enc: "encode_rest (a' # bs) eb ev = ALPHABET ! unat x # encode_rest bs 3 w"
      using encode_rest_Cons_one [of eb a' bs ev] True by (simp add: w_def x_def)
    have "uint x = ((uint ev mod 2 ^ eb) * 256 + uint a') div 2 ^ (eb + 3) mod 32"
      unfolding x_def w_def by (rule encode_step(1) [OF eb5])
    then have X: "uint x = uint a' div 2 ^ 3"
      using first_symbol_pow(2) [of 0 0 "uint a'"] A' x32 True by simp
    have "uint w mod 2 ^ (eb + 3) = ((uint ev mod 2 ^ eb) * 256 + uint a') mod 2 ^ (eb + 3)"
      unfolding w_def by (rule encode_step(2) [OF eb5])
    then have W: "uint w mod 2 ^ 3 = uint a' mod 2 ^ 3"
      using True by simp
    have "uint dv' mod 2 ^ (db + 5) = (uint dv mod 2 ^ db) * 32 + uint x"
      unfolding dv'_def by (rule decode_step(1)) (use db0 x32 in simp_all)
    then have V: "uint dv' mod 2 ^ (8 - 3) = uint a' div 2 ^ 3"
      using db0 X by simp
    have "decode_for (ALPHABET ! unat x # encode_rest bs 3 w) 0 dv index arr =
        (if (3 :: nat) \<le> 0
         then decode_for (encode_rest bs 3 w) (0 - 3) dv' (Suc index)
                (arr[index := ucast (drop_bit (0 - 3) dv')])
         else decode_for (encode_rest bs 3 w) (0 + 5) dv' index arr)"
      unfolding dv'_def by (rule decode_step(4)) (simp_all add: x32)
    then have "decode_for (ALPHABET ! unat x # encode_rest bs 3 w) db dv index arr =
        decode_for (encode_rest bs 3 w) 5 dv' index arr"
      using db0 by (simp del: decode_for.simps)
    moreover have "decode_for (encode_rest bs 3 w) 5 dv' index arr =
        Inr (write_from arr index ((if (3 :: nat) = 0 then [] else [a']) @ bs))"
      by (rule Cons.IH) (use V W in simp_all)
    ultimately show ?thesis using True enc by simp
  next
    case False
    then have eb: "0 < eb" "eb < 5"
      using eb5 by simp_all
    have inv: "db = 8 - eb" "uint dv mod 2 ^ (8 - eb) = uint a div 2 ^ eb"
      "uint ev mod 2 ^ eb = uint a mod 2 ^ eb"
      using Cons.prems(3) [OF eb(1)] by blast+
    have first: "decode_for (ALPHABET ! unat x # cs) db dv index arr =
        decode_for cs (5 - eb) dv' (Suc index) (arr[index := a])" for cs
      unfolding x_def w_def dv'_def inv(1) by (rule first_step(1) [OF eb inv(2,3)])
    have V: "uint dv' mod 2 ^ (5 - eb) = uint a' div 2 ^ (eb + 3)"
      unfolding x_def w_def dv'_def by (rule first_step(2) [OF eb inv(2,3)])
    have W: "uint w mod 2 ^ (eb + 3) = uint a' mod 2 ^ (eb + 3)"
      unfolding w_def by (rule first_step(3) [OF eb inv(2,3)])
    show ?thesis
    proof (cases "eb < 2")
      case True
      have enc: "encode_rest (a' # bs) eb ev = ALPHABET ! unat x # encode_rest bs (eb + 3) w"
        unfolding x_def w_def by (rule encode_rest_Cons_one [OF True])
      have "decode_for (encode_rest bs (eb + 3) w) (5 - eb) dv' (Suc index) (arr[index := a]) =
          Inr (write_from (arr[index := a]) (Suc index)
            ((if eb + 3 = 0 then [] else [a']) @ bs))"
      proof (rule Cons.IH)
        show "eb + 3 < 5" using True by simp
        show "5 - eb = 0" if "eb + 3 = 0" using that by simp
        have "8 - (eb + 3) = 5 - eb" by simp
        then show "5 - eb = 8 - (eb + 3) \<and>
            uint dv' mod 2 ^ (8 - (eb + 3)) = uint a' div 2 ^ (eb + 3) \<and>
            uint w mod 2 ^ (eb + 3) = uint a' mod 2 ^ (eb + 3)"
          using V W by simp
      qed
      then show ?thesis using False enc first by simp
    next
      case False
      then have eb2: "2 \<le> eb" by simp
      have enc: "encode_rest (a' # bs) eb ev =
          ALPHABET ! unat x # ALPHABET ! unat y # encode_rest bs (eb - 2) w"
        unfolding x_def y_def w_def by (rule encode_rest_Cons_two [OF eb2 eb(2)])
      have "uint y = ((uint ev mod 2 ^ eb) * 256 + uint a') div 2 ^ (eb - 2) mod 32"
        unfolding y_def w_def by (rule encode_step(3) [OF eb(2) eb2])
      then have "(uint dv' mod 2 ^ (5 - eb)) * 32 + uint y =
          uint a' div 2 ^ (eb + 3) * 32 +
            ((uint ev mod 2 ^ eb) * 256 + uint a') div 2 ^ (eb - 2) mod 32"
        by (simp only: V)
      then have P: "(uint dv' mod 2 ^ (5 - eb)) * 32 + uint y = uint a' div 2 ^ (eb - 2)"
        by (simp only: second_symbol_pow(1) [OF eb2 eb(2)])
      have "uint w mod 2 ^ (eb - 2) = ((uint ev mod 2 ^ eb) * 256 + uint a') mod 2 ^ (eb - 2)"
        unfolding w_def by (rule encode_step(4) [OF eb(2) eb2])
      then have W2: "uint w mod 2 ^ (eb - 2) = uint a' mod 2 ^ (eb - 2)"
        by (simp only: second_symbol_pow(2) [OF eb2 eb(2)])
      have db1: "5 - eb < 8" by simp
      show ?thesis
      proof (cases "eb = 2")
        case True
        have three: "3 \<le> 5 - eb" "5 - eb - 3 = 0" "eb - 2 = 0"
          using True by simp_all
        have "uint (ucast (drop_bit (5 - eb - 3) dv'') :: byte) =
            ((uint dv' mod 2 ^ (5 - eb)) * 32 + uint y) div 2 ^ (5 - eb - 3) mod 256"
          unfolding dv''_def by (rule decode_step(2) [OF db1 y32 three(1)])
        then have "uint (ucast (drop_bit 0 dv'') :: byte) = uint a'"
          using A' by (simp only: P three) simp
        then have b: "ucast (drop_bit 0 dv'') = a'"
          by (simp only: word_uint_eq_iff)
        have "decode_for (ALPHABET ! unat y # encode_rest bs 0 w) (5 - eb) dv' (Suc index)
            (arr[index := a]) =
          decode_for (encode_rest bs 0 w) (5 - eb - 3) dv'' (Suc (Suc index))
            (arr[index := a, Suc index := ucast (drop_bit (5 - eb - 3) dv'')])"
          unfolding dv''_def using three(1) by (simp only: decode_step(4) [OF db1 y32] if_True)
        then have second: "decode_for (ALPHABET ! unat y # encode_rest bs 0 w) (5 - eb) dv'
            (Suc index) (arr[index := a]) =
          decode_for (encode_rest bs 0 w) 0 dv'' (Suc (Suc index))
            (arr[index := a, Suc index := a'])"
          by (simp only: three b)
        have "decode_for (encode_rest bs 0 w) 0 dv'' (Suc (Suc index))
            (arr[index := a, Suc index := a']) =
          Inr (write_from (arr[index := a, Suc index := a']) (Suc (Suc index))
            ((if (0 :: nat) = 0 then [] else [a']) @ bs))"
          by (rule Cons.IH) simp_all
        then show ?thesis using True enc first second three by simp
      next
        case False
        then have three: "\<not> 3 \<le> 5 - eb" "5 - eb + 5 = 8 - (eb - 2)" "0 < eb - 2" "eb - 2 < 5"
          using eb2 eb(2) by simp_all
        have "decode_for (ALPHABET ! unat y # encode_rest bs (eb - 2) w) (5 - eb) dv' (Suc index)
            (arr[index := a]) =
          decode_for (encode_rest bs (eb - 2) w) (5 - eb + 5) dv'' (Suc index)
            (arr[index := a])"
          unfolding dv''_def using three(1) by (simp only: decode_step(4) [OF db1 y32] if_False)
        then have second: "decode_for (ALPHABET ! unat y # encode_rest bs (eb - 2) w) (5 - eb)
            dv' (Suc index) (arr[index := a]) =
          decode_for (encode_rest bs (eb - 2) w) (8 - (eb - 2)) dv'' (Suc index)
            (arr[index := a])"
          by (simp only: three(2))
        have "uint dv'' mod 2 ^ (5 - eb + 5) = (uint dv' mod 2 ^ (5 - eb)) * 32 + uint y"
          unfolding dv''_def by (rule decode_step(1) [OF db1 y32])
        then have V2: "uint dv'' mod 2 ^ (8 - (eb - 2)) = uint a' div 2 ^ (eb - 2)"
          by (simp only: three(2) P)
        have "decode_for (encode_rest bs (eb - 2) w) (8 - (eb - 2)) dv'' (Suc index)
            (arr[index := a]) =
          Inr (write_from (arr[index := a]) (Suc index)
            ((if eb - 2 = 0 then [] else [a']) @ bs))"
        proof (rule Cons.IH)
          show "eb - 2 < 5" by (rule three(4))
          show "8 - (eb - 2) = 0" if "eb - 2 = 0" using that three(3) by simp
          show "8 - (eb - 2) = 8 - (eb - 2) \<and>
              uint dv'' mod 2 ^ (8 - (eb - 2)) = uint a' div 2 ^ (eb - 2) \<and>
              uint w mod 2 ^ (eb - 2) = uint a' mod 2 ^ (eb - 2)"
            using V2 W2 by simp
        qed
        then show ?thesis using \<open>eb \<noteq> 0\<close> three(3) enc first second by simp
      qed
    qed
  qed
qed

subsection \<open>What the decoder strips and how much it returns\<close>

lemma upper_table_range: "map_of upper_table c = Some u \<Longrightarrow> u \<noteq> CHR '' ''"
proof -
  have "\<forall>p \<in> set upper_table. snd p \<noteq> CHR '' ''"
    by (simp add: upper_table_def)
  then show "map_of upper_table c = Some u \<Longrightarrow> u \<noteq> CHR '' ''"
    using map_of_SomeD [of upper_table c u] by fastforce
qed

lemma strip_input_no_space: "CHR '' '' \<notin> set (strip_input str)"
proof -
  have "CHR '' '' \<notin> set (toUpperCase (filter (\<lambda>c. c \<noteq> CHR '' '') str))"
    by (auto simp add: toUpperCase_def split: option.splits dest: upper_table_range)
  then show ?thesis
    unfolding strip_input_def Let_def using in_set_takeD by fastforce
qed

lemma strip_end_bound: "strip_end s e \<le> e"
  by (induction e) simp_all

lemma strip_end_stops:
  "strip_end s e = 0 \<or> s ! (strip_end s e - 1) \<noteq> CHR ''=''"
  by (induction e) simp_all

lemma strip_input_no_padding:
  "\<not> (strip_input str \<noteq> [] \<and> last (strip_input str) = CHR ''='')"
proof -
  define s where "s = toUpperCase (filter (\<lambda>c. c \<noteq> CHR '' '') str)"
  define k where "k = strip_end s (length s)"
  have k: "k \<le> length s" "k = 0 \<or> s ! (k - 1) \<noteq> CHR ''=''"
    unfolding k_def using strip_end_bound [of s "length s"] strip_end_stops [of s "length s"]
    by simp_all
  have "last (take k s) = s ! (k - 1)" if "take k s \<noteq> []"
    using that k(1) by (simp add: last_conv_nth min_def)
  moreover have "strip_input str = take k s"
    by (simp add: strip_input_def Let_def s_def k_def)
  ultimately show ?thesis using k(2) by auto
qed

lemma decode_for_outcome:
  "(\<exists>c. decode_for cs bits v index arr = Inl (InvalidCharacter c)) \<or>
   (\<exists>r. decode_for cs bits v index arr = Inr r \<and> length r = length arr)"
proof (induction cs arbitrary: bits v index arr)
  case Nil
  then show ?case by simp
next
  case (Cons c cs)
  show ?case
  proof (cases "indexOf ALPHABET c")
    case None
    then show ?thesis by simp
  next
    case (Some idx)
    show ?thesis
    proof (cases "8 \<le> bits + 5")
      case True
      then show ?thesis
        using Some Cons.IH [of "bits + 5 - 8" "push_bit 5 v OR of_nat idx" "Suc index"
            "arr[index := ucast (drop_bit (bits + 5 - 8) (push_bit 5 v OR of_nat idx))]"]
        by simp
    next
      case False
      then show ?thesis
        using Some Cons.IH [of "bits + 5" "push_bit 5 v OR of_nat idx" index arr] by simp
    qed
  qed
qed

lemma encoded_length_back: "(8 * n + 4) div 5 * 5 div 8 = (n :: nat)"
  by presburger

lemma base32_there_and_back: "base32Decode (base32Encode b) = Inr b"
proof -
  define s where "s = encode_rest b 0 0"
  have "strip_input s = s"
    unfolding s_def by (rule strip_input_ALPHABET) (simp add: set_encode_rest)
  moreover have "length s * 5 div 8 = length b"
    unfolding s_def by (simp add: length_encode_rest encoded_length_back)
  moreover have "decode_for s 0 0 0 (replicate (length b) 0) =
      Inr (write_from (replicate (length b) 0) 0 ((if (0 :: nat) = 0 then [] else [0]) @ b))"
    unfolding s_def by (rule decode_encode_rest) simp_all
  ultimately show ?thesis
    by (simp add: base32Decode_def base32Encode_rest s_def [symmetric] write_from_all)
qed

text \<open>
  Claim C5. Decoding the encoding of any byte sequence \<open>b\<close> gives \<open>b\<close> back; the
  encoding has \<open>\<lceil>8 * length b / 5\<rceil>\<close> symbols, the last one holding the leftover bits
  shifted up over zeros, and the decoder drops the bits that do not fill a byte. On any
  ASCII text the decoder first removes the spaces and the trailing \<open>=\<close> signs
  (\<open>strip_input\<close>, which also upper-cases), and then either rejects a character or
  returns \<open>\<lfloor>len * 5 / 8\<rfloor>\<close> bytes, \<open>len\<close> being the length of the stripped text.
\<close>

theorem base32_round_trip:
  "base32Decode (base32Encode b) = Inr b \<and>
   length (base32Encode b) = (8 * length b + 4) div 5 \<and>
   ((\<forall>c \<in> set str. of_char c < (128 :: nat)) \<longrightarrow>
      CHR '' '' \<notin> set (strip_input str) \<and>
      \<not> (strip_input str \<noteq> [] \<and> last (strip_input str) = CHR ''='') \<and>
      ((\<exists>c. base32Decode str = Inl (InvalidCharacter c)) \<or>
       (\<exists>bs. base32Decode str = Inr bs \<and> length bs = length (strip_input str) * 5 div 8)))"
proof -
  have "length (base32Encode b) = (8 * length b + 4) div 5"
    by (simp add: base32Encode_rest length_encode_rest)
  moreover have "(\<exists>c. base32Decode str = Inl (InvalidCharacter c)) \<or>
      (\<exists>bs. base32Decode str = Inr bs \<and> length bs = length (strip_input str) * 5 div 8)"
    using decode_for_outcome [of "strip_input str" 0 0 0
        "replicate (length (strip_input str) * 5 div 8) 0"]
    by (simp add: base32Decode_def Let_def)
  ultimately show ?thesis
    using base32_there_and_back strip_input_no_space strip_input_no_padding by blast
qed

theorem base32_round_trip_witness:
  "base32Encode [0x66, 0x6f] = ''MZXQ'' \<and>
   base32Decode (base32Encode [0x66, 0x6f]) = Inr [0x66, 0x6f] \<and>
   strip_input ''mz xq=='' = ''MZXQ'' \<and>
   base32Decode ''mz xq=='' = Inr [0x66, 0x6f] \<and>
   length [0x66, 0x6f :: byte] = length (strip_input ''mz xq=='') * 5 div 8"
  using base32_round_trip [of "[0x66, 0x6f]" "''mz xq==''"]
  by (simp add: base32Decode_def base32Encode_def encode_while.simps strip_input_def
      toUpperCase_def upper_table_def ALPHABET_def replicate_numeral)

end
